theory Spec2Isabelle
  imports Main
begin

section \<open>Text: Python strings as lists of code points\<close>

text \<open>
  A Python \<open>str\<close> is a sequence of Unicode code points; the normalizer names code
  points beyond one byte (U+200B, U+FEFF), so a text is a list
  of code points, each the integer that \<open>ord\<close> gives.
  \<open>ascii\<close> turns a literal into such a list.
\<close>

type_synonym ustring = "int list"

definition ascii :: "string \<Rightarrow> ustring" where
  "ascii s = map of_char s"

text \<open>
  The class \<open>\s\<close> of the \<open>re\<close> module on \<open>str\<close> patterns, which is also the set that
  \<open>str.strip()\<close> removes: U+0009..U+000D, U+001C..U+0020, U+0085, U+00A0, U+1680,
  U+2000..U+200A, U+2028, U+2029, U+202F, U+205F, U+3000.
\<close>

definition is_space :: "int \<Rightarrow> bool" where
  "is_space c \<longleftrightarrow>
     (9 \<le> c \<and> c \<le> 13) \<or> (28 \<le> c \<and> c \<le> 32) \<or> c = 133 \<or> c = 160 \<or> c = 5760 \<or>
     (8192 \<le> c \<and> c \<le> 8202) \<or> c = 8232 \<or> c = 8233 \<or> c = 8239 \<or> c = 8287 \<or> c = 12288"

text \<open>
  The class \<open>[A-Za-z\<dots>]\<close> of lines 64 and 73: the ASCII letters and the fourteen accented
  letters U+00C1 U+00C9 U+00CD U+00D3 U+00DA U+00DC U+00D1 and
  U+00E1 U+00E9 U+00ED U+00F3 U+00FA U+00FC U+00F1.
\<close>

definition is_letter :: "int \<Rightarrow> bool" where
  "is_letter c \<longleftrightarrow>
     (65 \<le> c \<and> c \<le> 90) \<or> (97 \<le> c \<and> c \<le> 122) \<or>
     c = 193 \<or> c = 201 \<or> c = 205 \<or> c = 211 \<or> c = 218 \<or> c = 220 \<or> c = 209 \<or>
     c = 225 \<or> c = 233 \<or> c = 237 \<or> c = 243 \<or> c = 250 \<or> c = 252 \<or> c = 241"

text \<open>
  The class \<open>\w\<close> is a table of the Unicode database (alphanumeric code points and the
  underscore). The functions below take it as the parameter \<open>uw\<close>. \<open>latin1_word\<close> is
  that table on U+0000..U+00FF, for evaluating texts of that range.
\<close>

definition latin1_word :: "int \<Rightarrow> bool" where
  "latin1_word c \<longleftrightarrow>
     (48 \<le> c \<and> c \<le> 57) \<or> (65 \<le> c \<and> c \<le> 90) \<or> c = 95 \<or> (97 \<le> c \<and> c \<le> 122) \<or>
     c = 170 \<or> c = 178 \<or> c = 179 \<or> c = 181 \<or> c = 185 \<or> c = 186 \<or>
     (188 \<le> c \<and> c \<le> 190) \<or> (192 \<le> c \<and> c \<le> 214) \<or> (216 \<le> c \<and> c \<le> 246) \<or>
     (248 \<le> c \<and> c \<le> 255)"

text \<open>\<open>s.replace(c, '')\<close> for a one-character \<open>c\<close>.\<close>

definition remove_char :: "int \<Rightarrow> ustring \<Rightarrow> ustring" where
  "remove_char c s = filter (\<lambda>x. x \<noteq> c) s"

section \<open>re.sub\<close>

text \<open>
  A pattern is given by its match at one position: from the character before the
  position (\<open>None\<close> at the start of the text; the patterns here look behind one character
  at most) and the text from the position on, the length of the match the backtracking
  matcher finds there, if any. Every pattern of this program matches one character at
  least.

  \<open>re.sub\<close> scans from the left: where the pattern matches, the replacement of the
  matched text is emitted and the scan goes on after the match; elsewhere the character is
  copied and the scan moves on by one. \<open>k\<close> counts the characters of a match that are
  still to be passed over.
\<close>

type_synonym matcher = "int option \<Rightarrow> ustring \<Rightarrow> nat option"

fun re_sub_from :: "matcher \<Rightarrow> (ustring \<Rightarrow> ustring) \<Rightarrow> nat \<Rightarrow> int option \<Rightarrow> ustring \<Rightarrow> ustring" where
  "re_sub_from m repl k p [] = []"
| "re_sub_from m repl (Suc k) p (c # cs) = re_sub_from m repl k (Some c) cs"
| "re_sub_from m repl 0 p (c # cs) =
     (case m p (c # cs) of
        None \<Rightarrow> c # re_sub_from m repl 0 (Some c) cs
      | Some 0 \<Rightarrow> c # re_sub_from m repl 0 (Some c) cs
      | Some (Suc n) \<Rightarrow> repl (take (Suc n) (c # cs)) @ re_sub_from m repl n (Some c) cs)"

definition re_sub :: "matcher \<Rightarrow> (ustring \<Rightarrow> ustring) \<Rightarrow> ustring \<Rightarrow> ustring" where
  "re_sub m repl s = re_sub_from m repl 0 None s"

subsection \<open>The five patterns of \<open>normalize_text\<close>\<close>

text \<open>
  Line 61, \<open>-\s*\n\s*\<close>. After the hyphen the first \<open>\s*\<close> takes the whole run of
  whitespace and gives characters back one at a time until \<open>\n\<close> matches
  (\<open>nl_after r k\<close>: \<open>k\<close> characters kept, then a newline); the second \<open>\s*\<close> takes the
  whitespace that follows.
\<close>

fun nl_after :: "ustring \<Rightarrow> nat \<Rightarrow> nat option" where
  "nl_after r 0 = (case r of [] \<Rightarrow> None | c # _ \<Rightarrow> if c = 10 then Some 1 else None)"
| "nl_after r (Suc k) =
     (case drop (Suc k) r of
        [] \<Rightarrow> nl_after r k
      | c # _ \<Rightarrow> if c = 10 then Some (Suc (Suc k)) else nl_after r k)"

definition hyphen_break :: matcher where
  "hyphen_break p s =
     (case s of
        [] \<Rightarrow> None
      | c # r \<Rightarrow>
          if c = 45 then
            (case nl_after r (length (takeWhile is_space r)) of
               None \<Rightarrow> None
             | Some j \<Rightarrow> Some (1 + j + length (takeWhile is_space (drop j r))))
          else None)"

text \<open>
  Line 64, \<open>([L]{2,})>\<close> with the replacement \<open>\1\<close>: the group takes the whole run of
  letters and gives letters back, never fewer than two left, until \<open>>\<close> matches. Group 1
  is the match without its last character.
\<close>

fun gt_after :: "ustring \<Rightarrow> nat \<Rightarrow> nat option" where
  "gt_after s 0 = None"
| "gt_after s (Suc k) =
     (if Suc k < 2 then None
      else (case drop (Suc k) s of
              [] \<Rightarrow> gt_after s k
            | c # _ \<Rightarrow> if c = 62 then Some (Suc (Suc k)) else gt_after s k))"

definition letters_gt :: matcher where
  "letters_gt p s = gt_after s (length (takeWhile is_letter s))"

text \<open>Line 68, \<open>\n{2,}\<close>, and line 76, \<open>[ \t]{2,}\<close>: a run of two or more, taken whole.\<close>

definition run_of :: "(int \<Rightarrow> bool) \<Rightarrow> matcher" where
  "run_of P p s = (let n = length (takeWhile P s) in if 2 \<le> n then Some n else None)"

definition is_newline :: "int \<Rightarrow> bool" where
  "is_newline c \<longleftrightarrow> c = 10"

definition is_blank :: "int \<Rightarrow> bool" where
  "is_blank c \<longleftrightarrow> c = 32 \<or> c = 9"

text \<open>
  Line 73,
  \<open>(?:(?<=\b)|(?<=\W))((?:[L]\s){2,}[L])(?=\b|\W)\<close>.
  \<open>\b\<close> holds between two positions of which exactly one is a word character, the two
  ends of the text counting as non-word. \<open>(?<=\b)\<close> looks behind over no character, so
  it is \<open>\b\<close> at the position; \<open>(?<=\W)\<close> asks for a non-word character before it.
  \<open>(?:[L]\s){2,}\<close> takes every pair of a letter and a whitespace character it can
  (\<open>pairs\<close>) and gives pairs back, never fewer than two left, until a letter and the
  lookahead \<open>(?=\b|\W)\<close> match after them (\<open>try_pairs\<close>).
\<close>

definition is_w :: "(int \<Rightarrow> bool) \<Rightarrow> int option \<Rightarrow> bool" where
  "is_w uw x = (case x of None \<Rightarrow> False | Some c \<Rightarrow> uw c)"

definition word_boundary :: "(int \<Rightarrow> bool) \<Rightarrow> int option \<Rightarrow> int option \<Rightarrow> bool" where
  "word_boundary uw before after \<longleftrightarrow> is_w uw before \<noteq> is_w uw after"

definition non_word :: "(int \<Rightarrow> bool) \<Rightarrow> int option \<Rightarrow> bool" where
  "non_word uw x = (case x of None \<Rightarrow> False | Some c \<Rightarrow> \<not> uw c)"

definition first_of :: "ustring \<Rightarrow> int option" where
  "first_of s = (case s of [] \<Rightarrow> None | c # _ \<Rightarrow> Some c)"

definition behind :: "(int \<Rightarrow> bool) \<Rightarrow> int option \<Rightarrow> ustring \<Rightarrow> bool" where
  "behind uw p s \<longleftrightarrow> word_boundary uw p (first_of s) \<or> non_word uw p"

definition ahead :: "(int \<Rightarrow> bool) \<Rightarrow> int \<Rightarrow> ustring \<Rightarrow> bool" where
  "ahead uw c r \<longleftrightarrow> word_boundary uw (Some c) (first_of r) \<or> non_word uw (first_of r)"

fun pairs :: "ustring \<Rightarrow> nat" where
  "pairs (a # b # r) = (if is_letter a \<and> is_space b then Suc (pairs r) else 0)"
| "pairs [a] = 0"
| "pairs [] = 0"

fun try_pairs :: "(int \<Rightarrow> bool) \<Rightarrow> ustring \<Rightarrow> nat \<Rightarrow> nat option" where
  "try_pairs uw s 0 = None"
| "try_pairs uw s (Suc k) =
     (if Suc k < 2 then None
      else (case drop (2 * Suc k) s of
              [] \<Rightarrow> try_pairs uw s k
            | c # r \<Rightarrow>
                if is_letter c \<and> ahead uw c r then Some (2 * Suc k + 1)
                else try_pairs uw s k))"

definition spaced_letters :: "(int \<Rightarrow> bool) \<Rightarrow> matcher" where
  "spaced_letters uw p s = (if behind uw p s then try_pairs uw s (pairs s) else None)"

text \<open>\<open>_join_letters\<close>, line 71: the match with its U+0020 characters removed.\<close>

definition join_letters :: "ustring \<Rightarrow> ustring" where
  "join_letters m = remove_char 32 m"

section \<open>normalize_text\<close>

definition strip_invisible :: "ustring \<Rightarrow> ustring" where
  "strip_invisible s =
     remove_char 13 (remove_char 65279 (remove_char 8205 (remove_char 8204
       (remove_char 8203 (remove_char 173 s)))))"

definition dehyphenate :: "ustring \<Rightarrow> ustring" where
  "dehyphenate s = re_sub hyphen_break (\<lambda>m. []) s"

definition strip_markup :: "ustring \<Rightarrow> ustring" where
  "strip_markup s = remove_char 62 (remove_char 60 (re_sub letters_gt butlast s))"

definition collapse_newlines :: "ustring \<Rightarrow> ustring" where
  "collapse_newlines s = re_sub (run_of is_newline) (\<lambda>m. [10]) s"

definition rejoin_letters :: "(int \<Rightarrow> bool) \<Rightarrow> ustring \<Rightarrow> ustring" where
  "rejoin_letters uw s = re_sub (spaced_letters uw) join_letters s"

definition collapse_blanks :: "ustring \<Rightarrow> ustring" where
  "collapse_blanks s = re_sub (run_of is_blank) (\<lambda>m. [32]) s"

definition normalize_text :: "(int \<Rightarrow> bool) \<Rightarrow> ustring \<Rightarrow> ustring" where
  "normalize_text uw s =
     (if s = [] then s
      else collapse_blanks (rejoin_letters uw (collapse_newlines
             (strip_markup (dehyphenate (strip_invisible s))))))"

text \<open>
  \<open>truncate\<close>, line 101, here \<open>truncate_text\<close>: the records below take the bare name.
  \<open>s[:n]\<close> with a negative \<open>n\<close> drops the last \<open>-n\<close> characters.
\<close>

definition slice_to :: "int \<Rightarrow> 'a list \<Rightarrow> 'a list" where
  "slice_to n xs = (if 0 \<le> n then take (nat n) xs else take (length xs - nat (- n)) xs)"

definition ellipsis :: ustring where
  "ellipsis = [32, 8230]"

definition truncate_text :: "ustring \<Rightarrow> int \<Rightarrow> ustring" where
  "truncate_text s n = (if int (length s) \<le> n then s else slice_to n s @ ellipsis)"


definition flatten :: "ustring \<Rightarrow> ustring" where
  "flatten s = map (\<lambda>c. if c = 10 then 32 else c) s"

definition snippet_of :: "ustring \<Rightarrow> int \<Rightarrow> ustring" where
  "snippet_of content max_chars = truncate_text (flatten content) max_chars"

section \<open>What the program touches\<close>

text \<open>
  Raw bytes are lists of numbers. An exception is a value: \<open>cause\<close> is what
  \<open>requests.get\<close> and \<open>raise_for_status\<close> raise, \<open>error\<close> what the program's own
  functions raise. \<open>SystemExit\<close> carries the column name and the column list its message
  is built from; Python exits with status 1 on it.
\<close>

type_synonym bytes = "nat list"

datatype cause = Transport ustring | HTTPError int

datatype error =
    RuntimeError ustring "cause option"
  | Raised ustring
  | SystemExit ustring "ustring list"

record response =
  status_code :: int
  content :: bytes

record meta_record =
  m_date :: ustring
  m_pdf_url :: ustring
  m_text_relpath :: ustring
  m_chars :: nat
  m_sha256_bytes :: ustring

record doc_entry =
  d_id :: ustring
  d_date :: ustring
  d_pdf_url :: ustring
  d_text_relpath :: ustring
  d_snippet :: ustring

text \<open>
  \<open>docs_index.json\<close> on disk: absent, not parseable, parseable but not an array, or an
  array of entries. In memory \<open>docs\<close> is a list, or the other JSON value that
  \<open>json.loads\<close> returned, on which \<open>docs.append\<close> raises.
\<close>

datatype json_file = Absent | Invalid | Not_a_list | Docs "doc_entry list"

datatype docs_val = DList "doc_entry list" | DOther

text \<open>
  The state: the log of \<open>requests.get\<close> calls (URL and timeout), the arguments of the
  \<open>time.sleep\<close> calls of the fetcher, the number of pauses between rows, the inputs of the
  extractor calls, the text files by path, \<open>index_texts.csv\<close> (\<open>None\<close> when absent),
  \<open>docs_index.json\<close>, the variable \<open>docs\<close>, and the \<open>[ERROR]\<close> lines printed.
\<close>

record world =
  requests :: "(ustring \<times> int) list"
  backoff :: "int list"
  pauses :: nat
  extracted :: "bytes list"
  files :: "ustring \<rightharpoonup> bytes"
  meta_csv :: "meta_record list option"
  docs_json :: json_file
  docs :: docs_val
  errors :: "(ustring \<times> error) list"

text \<open>
  A cell of the sheet is a string, the float NaN of an empty cell, or a value of another
  type, kept as the text \<open>str\<close> gives for it.
\<close>

datatype cell = CStr ustring | CNaN | COther ustring

text \<open>
  The libraries and the outside world are parameters. \<open>net n url\<close> is what the \<open>n\<close>-th
  call of \<open>requests.get\<close> of the run does on \<open>url\<close>; \<open>fitz_pages\<close> opens a document and
  gives each page's text or the exception raised on it; \<open>format_date\<close> is the
  function of line 39, on \<open>pandas\<close>; \<open>text_path\<close> is lines 166 to 176
  (date bucket, \<open>mkdir\<close>, \<open>safe_filename\<close>), outside the \<open>try\<close>, so its exception is not
  caught; \<open>rel_path\<close> is \<open>relative_to(REPO_ROOT).as_posix()\<close>; \<open>encode\<close> and \<open>decode\<close>
  are UTF-8 with \<open>errors="ignore"\<close>; \<open>write_error\<close> is the exception \<open>write_text\<close>
  raises, if any, the file store being left as it was then; \<open>time_t_overflow m e\<close> says
  that the platform's time type cannot hold \<open>m * 2 ^ e\<close> seconds; \<open>uw\<close> is the table of
  \<open>\w\<close>.
\<close>

text \<open>
  A Python \<open>float\<close>, as \<open>--sleep\<close> is parsed: \<open>Finite m e\<close> is \<open>m * 2 ^ e\<close>, which every
  finite double is; then the two infinities and NaN.
\<close>

datatype pyfloat = Finite int int | PosInf | NegInf | NaN

record env =
  net :: "nat \<Rightarrow> ustring \<Rightarrow> cause + response"
  fitz_pages :: "bytes \<Rightarrow> ustring + (ustring + ustring) list"
  sha256_hex :: "bytes \<Rightarrow> ustring"
  md5_hex :: "ustring \<Rightarrow> ustring"
  format_date :: "cell \<Rightarrow> ustring"
  text_path :: "ustring \<Rightarrow> ustring \<Rightarrow> ustring + ustring"
  rel_path :: "ustring \<Rightarrow> ustring + ustring"
  encode :: "ustring \<Rightarrow> bytes"
  decode :: "bytes \<Rightarrow> ustring + ustring"
  write_error :: "ustring \<Rightarrow> bytes \<Rightarrow> ustring option"
  time_t_overflow :: "int \<Rightarrow> int \<Rightarrow> bool"
  uw :: "int \<Rightarrow> bool"

section \<open>fetch_pdf_bytes\<close>

definition raise_for_status :: "response \<Rightarrow> cause + unit" where
  "raise_for_status r =
     (if 400 \<le> status_code r \<and> status_code r < 600 then Inl (HTTPError (status_code r))
      else Inr ())"

text \<open>The body of the \<open>try\<close> of line 83: the content, or the exception caught at line 87.\<close>

definition attempt :: "(nat \<Rightarrow> ustring \<Rightarrow> cause + response) \<Rightarrow> nat \<Rightarrow> ustring \<Rightarrow> cause + bytes" where
  "attempt nt n url =
     (case nt n url of
        Inl e \<Rightarrow> Inl e
      | Inr r \<Rightarrow> (case raise_for_status r of Inl e \<Rightarrow> Inl e | Inr _ \<Rightarrow> Inr (content r)))"

text \<open>
  The loop \<open>for i in range(retries)\<close>: \<open>i\<close> is the index, the second number counts the
  iterations left, \<open>last_e\<close> is the variable \<open>last\<close> of line 81.
\<close>

fun fetch_loop ::
  "(nat \<Rightarrow> ustring \<Rightarrow> cause + response) \<Rightarrow> ustring \<Rightarrow> int \<Rightarrow> int \<Rightarrow> nat \<Rightarrow> nat \<Rightarrow> cause option \<Rightarrow>
   world \<Rightarrow> (error + bytes) \<times> world" where
  "fetch_loop nt url timeout sleep i 0 last_e w = (Inl (RuntimeError url last_e), w)"
| "fetch_loop nt url timeout sleep i (Suc n) last_e w =
     (case attempt nt (length (requests w)) url of
        Inr b \<Rightarrow> (Inr b, w\<lparr>requests := requests w @ [(url, timeout)]\<rparr>)
      | Inl e \<Rightarrow>
          fetch_loop nt url timeout sleep (Suc i) n (Some e)
            (w\<lparr>requests := requests w @ [(url, timeout)],
               backoff := backoff w @ [sleep * (int i + 1)]\<rparr>))"

definition fetch_pdf_bytes ::
  "(nat \<Rightarrow> ustring \<Rightarrow> cause + response) \<Rightarrow> ustring \<Rightarrow> int \<Rightarrow> int \<Rightarrow> int \<Rightarrow>
   world \<Rightarrow> (error + bytes) \<times> world" where
  "fetch_pdf_bytes nt url timeout retries sleep w =
     fetch_loop nt url timeout sleep 0 (nat retries) None w"

section \<open>extract_text_from_pdf_bytes\<close>

fun load_pages :: "(ustring + ustring) list \<Rightarrow> ustring + ustring list" where
  "load_pages [] = Inr []"
| "load_pages (Inl e # ps) = Inl e"
| "load_pages (Inr t # ps) = (case load_pages ps of Inl e \<Rightarrow> Inl e | Inr ts \<Rightarrow> Inr (t # ts))"

fun join_lines :: "ustring list \<Rightarrow> ustring" where
  "join_lines [] = []"
| "join_lines [t] = t"
| "join_lines (t # u # ts) = t @ 10 # join_lines (u # ts)"

definition extract_text_from_pdf_bytes :: "env \<Rightarrow> bytes \<Rightarrow> int \<Rightarrow> error + ustring" where
  "extract_text_from_pdf_bytes ev b max_pages =
     (case fitz_pages ev b of
        Inl e \<Rightarrow> Inl (Raised e)
      | Inr doc \<Rightarrow>
          (case load_pages (if max_pages = 0 then doc
                            else take (nat (min max_pages (int (length doc)))) doc) of
             Inl e \<Rightarrow> Inl (Raised e)
           | Inr ts \<Rightarrow> Inr (join_lines ts)))"

section \<open>main\<close>

text \<open>
  A manifest is the column names and the rows, each a dictionary from column names to
  cells (\<open>df.to_dict("records")\<close>).
\<close>

fun py_str :: "cell \<Rightarrow> ustring" where
  "py_str (CStr s) = s"
| "py_str CNaN = ascii ''nan''"
| "py_str (COther s) = s"

definition py_strip :: "ustring \<Rightarrow> ustring" where
  "py_strip s = rev (dropWhile is_space (rev (dropWhile is_space s)))"

text \<open>
  \<open>str.lower\<close> on the ASCII letters. No other code point lowercases to a text that
  begins with \<open>n\<close> or \<open>a\<close>, so \<open>url.lower().startswith("nan")\<close> is decided by these.
\<close>

definition py_lower :: "ustring \<Rightarrow> ustring" where
  "py_lower s = map (\<lambda>c. if 65 \<le> c \<and> c \<le> 90 then c + 32 else c) s"

definition startswith :: "ustring \<Rightarrow> ustring \<Rightarrow> bool" where
  "startswith s pre \<longleftrightarrow> take (length pre) s = pre"

record manifest =
  columns :: "ustring list"
  rows :: "(ustring \<rightharpoonup> cell) list"

record args =
  col_date :: ustring
  col_url :: ustring
  limit :: int
  sleep :: pyfloat
  resume :: bool
  rewrite :: bool
  max_pages :: int
  max_chars :: int

text \<open>\<open>r.get(col, "")\<close>.\<close>

definition row_get :: "(ustring \<rightharpoonup> cell) \<Rightarrow> ustring \<Rightarrow> cell" where
  "row_get r col = (case r col of None \<Rightarrow> CStr [] | Some v \<Rightarrow> v)"

definition row_url :: "args \<Rightarrow> (ustring \<rightharpoonup> cell) \<Rightarrow> ustring" where
  "row_url a r = py_strip (py_str (row_get r (col_url a)))"

definition meta_rows :: "world \<Rightarrow> meta_record list" where
  "meta_rows w = (case meta_csv w of None \<Rightarrow> [] | Some l \<Rightarrow> l)"

text \<open>Line 184: \<open>args.rewrite or (not txt_path.exists() or txt_path.stat().st_size == 0)\<close>.\<close>

definition must_write :: "args \<Rightarrow> world \<Rightarrow> ustring \<Rightarrow> bool" where
  "must_write a w txt_path \<longleftrightarrow>
     rewrite a \<or> (case files w txt_path of None \<Rightarrow> True | Some data \<Rightarrow> length data = 0)"

text \<open>Lines 184 to 187. The exception of a failing step, if any, and the state it leaves.\<close>

definition write_text_step :: "env \<Rightarrow> args \<Rightarrow> ustring \<Rightarrow> bytes \<Rightarrow> world \<Rightarrow> error option \<times> world" where
  "write_text_step ev a txt_path pdf_bytes w =
     (if must_write a w txt_path then
        (case extract_text_from_pdf_bytes ev pdf_bytes (max_pages a) of
           Inl e \<Rightarrow> (Some e, w\<lparr>extracted := extracted w @ [pdf_bytes]\<rparr>)
         | Inr text \<Rightarrow>
             (case write_error ev txt_path (encode ev (normalize_text (uw ev) text)) of
                Some e \<Rightarrow> (Some (Raised e), w\<lparr>extracted := extracted w @ [pdf_bytes]\<rparr>)
              | None \<Rightarrow>
                  (None, w\<lparr>extracted := extracted w @ [pdf_bytes],
                           files := (files w)(txt_path \<mapsto> encode ev (normalize_text (uw ev) text))\<rparr>)))
      else (None, w))"

text \<open>
  \<open>time.sleep(args.sleep)\<close>, line 214: the exception it raises, if any. A NaN is refused,
  then a value that the platform's time type cannot hold, then a negative one.
\<close>

fun time_sleep :: "env \<Rightarrow> pyfloat \<Rightarrow> error option" where
  "time_sleep ev NaN = Some (Raised (ascii ''ValueError''))"
| "time_sleep ev PosInf = Some (Raised (ascii ''OverflowError''))"
| "time_sleep ev NegInf = Some (Raised (ascii ''OverflowError''))"
| "time_sleep ev (Finite m e) =
     (if time_t_overflow ev m e then Some (Raised (ascii ''OverflowError''))
      else if m < 0 then Some (Raised (ascii ''ValueError''))
      else None)"

text \<open>
  The \<open>try\<close> block, lines 179 to 214: the exception that leaves it, if any, and the state
  then. \<open>fetch_pdf_bytes(url)\<close> runs with its defaults, timeout 90, 3 retries, sleep 2.
  The pause of line 214 is inside the block: when it raises, the record and the entry of
  the row are already appended.
\<close>

definition try_block :: "env \<Rightarrow> args \<Rightarrow> ustring \<Rightarrow> ustring \<Rightarrow> ustring \<Rightarrow> world \<Rightarrow> error option \<times> world" where
  "try_block ev a url d_fmt txt_path w =
     (case fetch_pdf_bytes (net ev) url 90 3 2 w of
        (Inl e, w1) \<Rightarrow> (Some e, w1)
      | (Inr pdf_bytes, w1) \<Rightarrow>
          (case write_text_step ev a txt_path pdf_bytes w1 of
             (Some e, w2) \<Rightarrow> (Some e, w2)
           | (None, w2) \<Rightarrow>
               (case files w2 txt_path of
                  None \<Rightarrow> (Some (Raised (ascii ''FileNotFoundError'')), w2)
                | Some data \<Rightarrow>
                    (case rel_path ev txt_path of
                       Inl e \<Rightarrow> (Some (Raised e), w2)
                     | Inr rel_text \<Rightarrow>
                         (let w3 = w2\<lparr>meta_csv := Some (meta_rows w2 @
                                     [\<lparr>m_date = d_fmt, m_pdf_url = url, m_text_relpath = rel_text,
                                       m_chars = length data,
                                       m_sha256_bytes = sha256_hex ev pdf_bytes\<rparr>])\<rparr>;
                              content = (case decode ev data of Inl e \<Rightarrow> [] | Inr t \<Rightarrow> t)
                          in (case docs w3 of
                                DOther \<Rightarrow> (Some (Raised (ascii ''AttributeError'')), w3)
                              | DList l \<Rightarrow>
                                  (let w4 = w3\<lparr>docs := DList (l @
                                             [\<lparr>d_id = md5_hex ev url, d_date = d_fmt, d_pdf_url = url,
                                               d_text_relpath = rel_text,
                                               d_snippet = snippet_of content (max_chars a)\<rparr>])\<rparr>
                                   in (case time_sleep ev (sleep a) of
                                         Some e \<Rightarrow> (Some e, w4)
                                       | None \<Rightarrow> (None, w4\<lparr>pauses := Suc (pauses w4)\<rparr>)))))))))"

text \<open>
  One iteration of the loop of line 156, for the done set \<open>dn\<close>. The first component is
  an exception that is not caught and ends the run.
\<close>

definition process_row ::
  "env \<Rightarrow> args \<Rightarrow> ustring set \<Rightarrow> (ustring \<rightharpoonup> cell) \<Rightarrow> world \<Rightarrow> error option \<times> world" where
  "process_row ev a dn r w =
     (let url = row_url a r in
      if url = [] \<or> startswith (py_lower url) (ascii ''nan'') then (None, w)
      else if resume a \<and> url \<in> dn then (None, w)
      else
        (let d_fmt = format_date ev (row_get r (col_date a)) in
         case text_path ev d_fmt url of
           Inl e \<Rightarrow> (Some (Raised e), w)
         | Inr txt_path \<Rightarrow>
             (case try_block ev a url d_fmt txt_path w of
                (None, w') \<Rightarrow> (None, w')
              | (Some e, w') \<Rightarrow> (None, w'\<lparr>errors := errors w' @ [(url, e)]\<rparr>))))"

fun run_rows ::
  "env \<Rightarrow> args \<Rightarrow> ustring set \<Rightarrow> (ustring \<rightharpoonup> cell) list \<Rightarrow> world \<Rightarrow> error option \<times> world" where
  "run_rows ev a dn [] w = (None, w)"
| "run_rows ev a dn (r # rs) w =
     (case process_row ev a dn r w of
        (Some e, w') \<Rightarrow> (Some e, w')
      | (None, w') \<Rightarrow> run_rows ev a dn rs w')"

text \<open>Lines 130 to 134, 144 to 149 and 223.\<close>

definition load_done :: "args \<Rightarrow> world \<Rightarrow> ustring set" where
  "load_done a w =
     (if resume a then (case meta_csv w of None \<Rightarrow> {} | Some l \<Rightarrow> set (map m_pdf_url l))
      else {})"

fun load_docs :: "json_file \<Rightarrow> docs_val" where
  "load_docs Absent = DList []"
| "load_docs Invalid = DList []"
| "load_docs Not_a_list = DOther"
| "load_docs (Docs l) = DList l"

fun dump_docs :: "docs_val \<Rightarrow> json_file" where
  "dump_docs (DList l) = Docs l"
| "dump_docs DOther = Not_a_list"

text \<open>Lines 152 and 153: \<open>rows[:total]\<close>.\<close>

definition selected_rows :: "args \<Rightarrow> manifest \<Rightarrow> (ustring \<rightharpoonup> cell) list" where
  "selected_rows a df =
     slice_to (if limit a = 0 then int (length (rows df))
               else min (limit a) (int (length (rows df)))) (rows df)"

text \<open>
  \<open>main\<close> on a manifest that \<open>read_excel\<close> has loaded: the exception that ends the run,
  if any, and the state at the end. Opening \<open>index_texts.csv\<close> for appending creates it.
\<close>

definition main :: "env \<Rightarrow> args \<Rightarrow> manifest \<Rightarrow> world \<Rightarrow> error option \<times> world" where
  "main ev a df w =
     (if col_url a \<notin> set (columns df) then (Some (SystemExit (col_url a) (columns df)), w)
      else
        (case run_rows ev a (load_done a w) (selected_rows a df)
                (w\<lparr>meta_csv := Some (meta_rows w), docs := load_docs (docs_json w)\<rparr>) of
           (Some e, w') \<Rightarrow> (Some e, w')
         | (None, w') \<Rightarrow> (None, w'\<lparr>docs_json := dump_docs (docs w')\<rparr>)))"

definition exit_status :: "error option \<Rightarrow> int" where
  "exit_status r = (case r of None \<Rightarrow> 0 | Some e \<Rightarrow> 1)"

text \<open>The tests of lines 158 and 160: the row is passed over.\<close>

definition is_skipped :: "args \<Rightarrow> ustring set \<Rightarrow> (ustring \<rightharpoonup> cell) \<Rightarrow> bool" where
  "is_skipped a dn r \<longleftrightarrow>
     row_url a r = [] \<or> startswith (py_lower (row_url a r)) (ascii ''nan'') \<or>
     (resume a \<and> row_url a r \<in> dn)"

text \<open>The \<open>pdf_url\<close> fields of the entries of \<open>docs\<close> and of the index file, in order.\<close>

fun doc_urls :: "docs_val \<Rightarrow> ustring list" where
  "doc_urls (DList l) = map d_pdf_url l"
| "doc_urls DOther = []"

fun index_urls :: "json_file \<Rightarrow> ustring list" where
  "index_urls (Docs l) = map d_pdf_url l"
| "index_urls Absent = []"
| "index_urls Invalid = []"
| "index_urls Not_a_list = []"

text \<open>No two neighbouring characters of a text are both of the class \<open>P\<close>.\<close>

fun no_run :: "(int \<Rightarrow> bool) \<Rightarrow> ustring \<Rightarrow> bool" where
  "no_run P (a # b # r) = (\<not> (P a \<and> P b) \<and> no_run P (b # r))"
| "no_run P [a] = True"
| "no_run P [] = True"

text \<open>
  A run of single letters: a letter, then any number of times a whitespace character and a
  letter. \<open>spaced\<close> puts one U+0020 between the characters of a text.
\<close>

fun letter_run :: "ustring \<Rightarrow> bool" where
  "letter_run (a # b # r) = (is_letter a \<and> is_space b \<and> letter_run r)"
| "letter_run [a] = is_letter a"
| "letter_run [] = False"


text \<open>The six characters that line 53 removes.\<close>

definition invisible :: "int \<Rightarrow> bool" where
  "invisible c \<longleftrightarrow> c = 173 \<or> c = 8203 \<or> c = 8204 \<or> c = 8205 \<or> c = 65279 \<or> c = 13"

section \<open>Stand-ins for the libraries, for evaluating runs\<close>

text \<open>
  A network where hosts \<open>down\<close> and \<open>gone\<close> fail and every other URL answers 200, a
  network whose first two answers fail, and an environment around the first: a two-page
  document, paths built from the URL, files holding the code points as they are.
\<close>

definition demo_net :: "nat \<Rightarrow> ustring \<Rightarrow> cause + response" where
  "demo_net n url =
     (if startswith url (ascii ''http://down/'') then Inl (Transport (ascii ''timed out''))
      else if startswith url (ascii ''http://gone/'') then Inr \<lparr>status_code = 404, content = []\<rparr>
      else Inr \<lparr>status_code = 200, content = [37, 80, 68, 70]\<rparr>)"


definition demo_env :: env where
  "demo_env =
     \<lparr>net = demo_net,
      fitz_pages = (\<lambda>b. Inr [Inr (ascii ''t r a b a j o''), Inr (ascii ''fin'')]),
      sha256_hex = (\<lambda>b. ascii ''5f2b''),
      md5_hex = (\<lambda>u. u),
      format_date = py_str,
      text_path = (\<lambda>d u. Inr (ascii ''texts/'' @ u @ ascii ''.txt'')),
      rel_path = Inr,
      encode = map nat,
      decode = (\<lambda>b. Inr (map int b)),
      write_error = (\<lambda>p b. None),
      time_t_overflow = (\<lambda>m e. False),
      uw = latin1_word\<rparr>"

definition demo_args :: args where
  "demo_args =
     \<lparr>col_date = ascii ''fecha'', col_url = ascii ''pdf'', limit = 0, sleep = Finite 1 (- 1),
      resume = False, rewrite = False, max_pages = 0, max_chars = 5\<rparr>"

definition new_world :: world where
  "new_world =
     \<lparr>requests = [], backoff = [], pauses = 0, extracted = [], files = Map.empty,
      meta_csv = None, docs_json = Absent, docs = DList [], errors = []\<rparr>"

definition demo_row :: "string \<Rightarrow> (ustring \<rightharpoonup> cell)" where
  "demo_row u = [ascii ''pdf'' \<mapsto> CStr (ascii u)]"

definition logged_world :: world where
  "logged_world =
     new_world\<lparr>meta_csv := Some [\<lparr>m_date = [], m_pdf_url = ascii ''http://a/x.pdf'',
                                  m_text_relpath = ascii ''texts/x.txt'', m_chars = 11,
                                  m_sha256_bytes = ascii ''5f2b''\<rparr>]\<rparr>"

definition one_row :: manifest where
  "one_row = \<lparr>columns = [ascii ''pdf''], rows = [demo_row ''http://a/x.pdf'']\<rparr>"

definition no_url_column :: manifest where
  "no_url_column = \<lparr>columns = [ascii ''fecha''], rows = [[ascii ''fecha'' \<mapsto> CStr (ascii ''2024-01-02'')]]\<rparr>"


definition three_rows :: manifest where
  "three_rows =
     \<lparr>columns = [ascii ''pdf''],
      rows = [demo_row ''http://a/x.pdf'', demo_row ''http://down/y.pdf'', demo_row ''http://b/z.pdf'']\<rparr>"

text \<open>The state that a first run over the one-row manifest leaves.\<close>

definition rerun_world :: world where
  "rerun_world = snd (main demo_env demo_args one_row new_world)"

section \<open>The fetcher retries with linear backoff\<close>







section \<open>Rows that are skipped\<close>

lemma set_slice_to: "set (slice_to n xs) \<subseteq> set xs"
  by (auto simp: slice_to_def dest: in_set_takeD)

lemma set_selected_rows: "set (selected_rows a df) \<subseteq> set (rows df)"
  by (simp add: selected_rows_def set_slice_to)

lemma run_rows_all_skipped:
  "(\<forall>r\<in>set rs. process_row ev a dn r w = (None, w)) \<Longrightarrow> run_rows ev a dn rs w = (None, w)"
  by (induction rs) simp_all

lemma process_row_done: "resume a \<Longrightarrow> row_url a r \<in> dn \<Longrightarrow> process_row ev a dn r w = (None, w)"
  by (simp add: process_row_def Let_def)

text \<open>
  Claim C10. A row whose URL cell, as a string and stripped, is empty or begins with
  \<open>nan\<close> in any letter case leaves the state as it was: no request, no metadata record,
  no snippet entry, no error line. A URL such as \<open>Nano.org/x.pdf\<close> is one of them.
\<close>

theorem empty_or_nan_url_skipped:
  "row_url a r = [] \<or> startswith (py_lower (row_url a r)) (ascii ''nan'') \<Longrightarrow>
   process_row ev a dn r w = (None, w)"
  by (simp add: process_row_def Let_def)

theorem empty_or_nan_url_skipped_witness:
  "startswith (py_lower (row_url demo_args (demo_row ''  Nano.org/x.pdf''))) (ascii ''nan'') \<and>
   row_url demo_args (demo_row ''  Nano.org/x.pdf'') = ascii ''Nano.org/x.pdf'' \<and>
   process_row demo_env demo_args {} (demo_row ''  Nano.org/x.pdf'') new_world = (None, new_world)"
proof -
  have u: "row_url demo_args (demo_row ''  Nano.org/x.pdf'') = ascii ''Nano.org/x.pdf''"
    by code_simp
  have h: "startswith (py_lower (row_url demo_args (demo_row ''  Nano.org/x.pdf''))) (ascii ''nan'')"
    by code_simp
  from empty_or_nan_url_skipped [of demo_args "demo_row ''  Nano.org/x.pdf''" demo_env "{}" new_world] h u
  show ?thesis by simp
qed

text \<open>
  Claim C5. With \<open>--resume\<close> and a metadata log that holds the URL of every row of the
  manifest, the run ends normally without a request, an extraction, a file written, a
  metadata record or an error line; and a row whose URL is in the done set leaves the state
  as it was.
\<close>

theorem resume_skips_logged_rows:
  "(resume a \<and> meta_csv w = Some lg \<and> col_url a \<in> set (columns df) \<and>
      (\<forall>r\<in>set (rows df). row_url a r \<in> set (map m_pdf_url lg)) \<longrightarrow>
      fst (main ev a df w) = None \<and>
      requests (snd (main ev a df w)) = requests w \<and>
      extracted (snd (main ev a df w)) = extracted w \<and>
      files (snd (main ev a df w)) = files w \<and>
      meta_csv (snd (main ev a df w)) = Some lg \<and>
      errors (snd (main ev a df w)) = errors w) \<and>
   (resume a \<and> row_url a r \<in> dn \<longrightarrow> process_row ev a dn r w = (None, w))"
proof (intro conjI impI)
  assume h: "resume a \<and> meta_csv w = Some lg \<and> col_url a \<in> set (columns df) \<and>
      (\<forall>r\<in>set (rows df). row_url a r \<in> set (map m_pdf_url lg))"
  let ?w = "w\<lparr>meta_csv := Some (meta_rows w), docs := load_docs (docs_json w)\<rparr>"
  have dn: "load_done a w = set (map m_pdf_url lg)"
    using h by (simp add: load_done_def)
  have "\<forall>r\<in>set (selected_rows a df). process_row ev a (load_done a w) r ?w = (None, ?w)"
    using h dn set_selected_rows [of a df] by (auto intro!: process_row_done)
  then have "run_rows ev a (load_done a w) (selected_rows a df) ?w = (None, ?w)"
    by (rule run_rows_all_skipped)
  then have m: "main ev a df w = (None, ?w\<lparr>docs_json := dump_docs (docs ?w)\<rparr>)"
    using h by (simp add: main_def)
  show "fst (main ev a df w) = None" by (simp add: m)
  show "requests (snd (main ev a df w)) = requests w" by (simp add: m)
  show "extracted (snd (main ev a df w)) = extracted w" by (simp add: m)
  show "files (snd (main ev a df w)) = files w" by (simp add: m)
  show "meta_csv (snd (main ev a df w)) = Some lg" using h by (simp add: m meta_rows_def)
  show "errors (snd (main ev a df w)) = errors w" by (simp add: m)
next
  assume "resume a \<and> row_url a r \<in> dn"
  then show "process_row ev a dn r w = (None, w)" by (simp add: process_row_done)
qed

theorem resume_skips_logged_rows_witness:
  "resume (demo_args\<lparr>resume := True\<rparr>) \<and>
   rows one_row = [demo_row ''http://a/x.pdf''] \<and>
   row_url (demo_args\<lparr>resume := True\<rparr>) (demo_row ''http://a/x.pdf'')
     \<in> set (map m_pdf_url (the (meta_csv logged_world))) \<and>
   fst (main demo_env (demo_args\<lparr>resume := True\<rparr>) one_row logged_world) = None \<and>
   requests (snd (main demo_env (demo_args\<lparr>resume := True\<rparr>) one_row logged_world)) = [] \<and>
   meta_csv (snd (main demo_env (demo_args\<lparr>resume := True\<rparr>) one_row logged_world)) = meta_csv logged_world \<and>
   process_row demo_env (demo_args\<lparr>resume := True\<rparr>) {ascii ''http://a/x.pdf''}
     (demo_row ''http://a/x.pdf'') new_world = (None, new_world)"
proof -
  let ?a = "demo_args\<lparr>resume := True\<rparr>"
  let ?lg = "the (meta_csv logged_world)"
  have u: "row_url ?a (demo_row ''http://a/x.pdf'') = ascii ''http://a/x.pdf''" by code_simp
  have h1: "resume ?a" by simp
  have h2: "meta_csv logged_world = Some ?lg" by (simp add: logged_world_def)
  have h3: "col_url ?a \<in> set (columns one_row)" by (simp add: demo_args_def one_row_def)
  have h4: "\<forall>r\<in>set (rows one_row). row_url ?a r \<in> set (map m_pdf_url ?lg)"
    by (simp add: one_row_def u) (simp add: logged_world_def)
  have h5: "row_url ?a (demo_row ''http://a/x.pdf'') \<in> {ascii ''http://a/x.pdf''}" by (simp add: u)
  have rq: "requests logged_world = []" by (simp add: logged_world_def new_world_def)
  from resume_skips_logged_rows [of ?a logged_world ?lg one_row demo_env "demo_row ''http://a/x.pdf''" "{ascii ''http://a/x.pdf''}"]
    resume_skips_logged_rows [of ?a new_world ?lg one_row demo_env "demo_row ''http://a/x.pdf''" "{ascii ''http://a/x.pdf''}"]
    h1 h2 h3 h4 h5 rq
  show ?thesis by (simp add: one_row_def)
qed

section \<open>What each step of a row leaves alone\<close>

lemma fetch_loop_frame:
  "fetch_loop nt url t s i n le w = (r, w') \<Longrightarrow>
   files w' = files w \<and> extracted w' = extracted w \<and> meta_csv w' = meta_csv w \<and>
   docs w' = docs w \<and> errors w' = errors w \<and> pauses w' = pauses w \<and>
   docs_json w' = docs_json w"
proof (induction n arbitrary: i le w)
  case 0
  then show ?case by auto
next
  case (Suc n)
  show ?case
  proof (cases "attempt nt (length (requests w)) url")
    case (Inl e)
    with Suc.prems have
      "fetch_loop nt url t s (Suc i) n (Some e)
         (w\<lparr>requests := requests w @ [(url, t)], backoff := backoff w @ [s * (int i + 1)]\<rparr>) = (r, w')"
      by simp
    from Suc.IH [OF this] show ?thesis by simp
  next
    case (Inr b)
    with Suc.prems show ?thesis by auto
  qed
qed

lemma fetch_pdf_bytes_frame:
  "fetch_pdf_bytes nt url t n s w = (r, w') \<Longrightarrow>
   files w' = files w \<and> extracted w' = extracted w \<and> meta_csv w' = meta_csv w \<and>
   docs w' = docs w \<and> errors w' = errors w \<and> pauses w' = pauses w \<and>
   docs_json w' = docs_json w"
  unfolding fetch_pdf_bytes_def by (rule fetch_loop_frame)

lemma write_text_step_frame:
  "write_text_step ev a p pdf w = (r, w') \<Longrightarrow>
   meta_csv w' = meta_csv w \<and> docs w' = docs w \<and> errors w' = errors w \<and>
   requests w' = requests w \<and> pauses w' = pauses w \<and> docs_json w' = docs_json w \<and>
   extracted w' = (if must_write a w p then extracted w @ [pdf] else extracted w)"
  by (auto simp: write_text_step_def split: if_splits sum.splits option.splits)




text \<open>The state after the \<open>try\<close> block, by the step that ends it.\<close>

lemma try_block_fetch_fails:
  "fetch_pdf_bytes (net ev) url 90 3 2 w = (Inl e, w1) \<Longrightarrow>
   try_block ev a url d p w = (Some e, w1)"
  by (simp add: try_block_def)

lemma try_block_step_fails:
  "fetch_pdf_bytes (net ev) url 90 3 2 w = (Inr pdf, w1) \<Longrightarrow>
   write_text_step ev a p pdf w1 = (Some e, w2) \<Longrightarrow>
   try_block ev a url d p w = (Some e, w2)"
  by (simp add: try_block_def)




lemma try_block_cases [case_names fetch_failed step_failed late_failure no_list pause_failed ok]:
  obtains
    e w1 where "fetch_pdf_bytes (net ev) url 90 3 2 w = (Inl e, w1)"
      and "try_block ev a url d p w = (Some e, w1)"
  | pdf w1 e w2 where "fetch_pdf_bytes (net ev) url 90 3 2 w = (Inr pdf, w1)"
      and "write_text_step ev a p pdf w1 = (Some e, w2)"
      and "try_block ev a url d p w = (Some e, w2)"
  | pdf w1 w2 e where "fetch_pdf_bytes (net ev) url 90 3 2 w = (Inr pdf, w1)"
      and "write_text_step ev a p pdf w1 = (None, w2)"
      and "try_block ev a url d p w = (Some e, w2)"
  | pdf w1 w2 data rel where "fetch_pdf_bytes (net ev) url 90 3 2 w = (Inr pdf, w1)"
      and "write_text_step ev a p pdf w1 = (None, w2)"
      and "files w2 p = Some data" and "rel_path ev p = Inr rel" and "docs w2 = DOther"
      and "try_block ev a url d p w =
             (Some (Raised (ascii ''AttributeError'')),
              w2\<lparr>meta_csv := Some (meta_rows w2 @
                    [\<lparr>m_date = d, m_pdf_url = url, m_text_relpath = rel, m_chars = length data,
                      m_sha256_bytes = sha256_hex ev pdf\<rparr>])\<rparr>)"
  | pdf w1 w2 data rel l e where "fetch_pdf_bytes (net ev) url 90 3 2 w = (Inr pdf, w1)"
      and "write_text_step ev a p pdf w1 = (None, w2)"
      and "files w2 p = Some data" and "rel_path ev p = Inr rel" and "docs w2 = DList l"
      and "time_sleep ev (sleep a) = Some e"
      and "try_block ev a url d p w =
             (Some e,
              w2\<lparr>meta_csv := Some (meta_rows w2 @
                    [\<lparr>m_date = d, m_pdf_url = url, m_text_relpath = rel, m_chars = length data,
                      m_sha256_bytes = sha256_hex ev pdf\<rparr>]),
                docs := DList (l @
                    [\<lparr>d_id = md5_hex ev url, d_date = d, d_pdf_url = url, d_text_relpath = rel,
                      d_snippet = snippet_of (case decode ev data of Inl e \<Rightarrow> [] | Inr t \<Rightarrow> t)
                                    (max_chars a)\<rparr>])\<rparr>)"
  | pdf w1 w2 data rel l where "fetch_pdf_bytes (net ev) url 90 3 2 w = (Inr pdf, w1)"
      and "write_text_step ev a p pdf w1 = (None, w2)"
      and "files w2 p = Some data" and "rel_path ev p = Inr rel" and "docs w2 = DList l"
      and "try_block ev a url d p w =
             (None,
              w2\<lparr>meta_csv := Some (meta_rows w2 @
                    [\<lparr>m_date = d, m_pdf_url = url, m_text_relpath = rel, m_chars = length data,
                      m_sha256_bytes = sha256_hex ev pdf\<rparr>]),
                docs := DList (l @
                    [\<lparr>d_id = md5_hex ev url, d_date = d, d_pdf_url = url, d_text_relpath = rel,
                      d_snippet = snippet_of (case decode ev data of Inl e \<Rightarrow> [] | Inr t \<Rightarrow> t)
                                    (max_chars a)\<rparr>]),
                pauses := Suc (pauses w2)\<rparr>)"
      and "time_sleep ev (sleep a) = None"
proof (cases "fetch_pdf_bytes (net ev) url 90 3 2 w")
  case (Pair fr w1)
  show ?thesis
  proof (cases fr)
    case (Inl e)
    with Pair that(1) show ?thesis by (simp add: try_block_def)
  next
    case (Inr pdf)
    note f = Pair [unfolded Inr]
    show ?thesis
    proof (cases "write_text_step ev a p pdf w1")
      case (Pair sr w2)
      note s = this
      show ?thesis
      proof (cases sr)
        case (Some e)
        with f s that(2) show ?thesis by (simp add: try_block_def)
      next
        case None
        note s = s [unfolded None]
        show ?thesis
        proof (cases "files w2 p")
          case None
          with f s that(3) show ?thesis by (simp add: try_block_def)
        next
          case (Some data)
          note fl = this
          show ?thesis
          proof (cases "rel_path ev p")
            case (Inl e)
            with f s fl that(3) show ?thesis by (simp add: try_block_def)
          next
            case (Inr rel)
            show ?thesis
            proof (cases "docs w2")
              case DOther
              with f s fl Inr that(4) show ?thesis by (simp add: try_block_def Let_def)
            next
              case (DList l)
              show ?thesis
              proof (cases "time_sleep ev (sleep a)")
                case None
                with f s fl Inr DList that(6) show ?thesis by (simp add: try_block_def Let_def)
              next
                case (Some e)
                with f s fl Inr DList that(5) show ?thesis by (simp add: try_block_def Let_def)
              qed
            qed
          qed
        qed
      qed
    qed
  qed
qed

section \<open>Truncated snippets\<close>

lemma truncate_long: "0 \<le> n \<Longrightarrow> n < int (length s) \<Longrightarrow> truncate_text s n = take (nat n) s @ ellipsis"
  by (simp add: truncate_text_def slice_to_def)

lemma truncate_short: "int (length s) \<le> n \<Longrightarrow> truncate_text s n = s"
  by (simp add: truncate_text_def)

lemma try_block_ok:
  assumes "fst (try_block ev a url d p w) = None"
  shows "\<exists>pdf w1 w2 data rel l.
           fetch_pdf_bytes (net ev) url 90 3 2 w = (Inr pdf, w1) \<and>
           write_text_step ev a p pdf w1 = (None, w2) \<and>
           files w2 p = Some data \<and> rel_path ev p = Inr rel \<and> docs w2 = DList l \<and>
           snd (try_block ev a url d p w) =
             w2\<lparr>meta_csv := Some (meta_rows w2 @
                    [\<lparr>m_date = d, m_pdf_url = url, m_text_relpath = rel, m_chars = length data,
                      m_sha256_bytes = sha256_hex ev pdf\<rparr>]),
                docs := DList (l @
                    [\<lparr>d_id = md5_hex ev url, d_date = d, d_pdf_url = url, d_text_relpath = rel,
                      d_snippet = snippet_of (case decode ev data of Inl e \<Rightarrow> [] | Inr t \<Rightarrow> t)
                                    (max_chars a)\<rparr>]),
                pauses := Suc (pauses w2)\<rparr>"
  using assms
  by (auto simp: try_block_def Let_def split: prod.splits sum.splits option.splits docs_val.splits)

lemma try_block_ok_pause:
  "fst (try_block ev a url d p w) = None \<Longrightarrow> time_sleep ev (sleep a) = None"
  by (auto simp: try_block_def Let_def split: prod.splits sum.splits option.splits docs_val.splits)

lemma write_text_step_files:
  "write_text_step ev a p pdf w = (None, w2) \<Longrightarrow> q \<noteq> p \<Longrightarrow> files w2 q = files w q"
  by (auto simp: write_text_step_def split: if_splits sum.splits option.splits)

text \<open>
  Claim C9. With \<open>max_chars\<close> not negative, a text whose flattened form (newlines
  replaced by spaces) is longer than \<open>max_chars\<close> gets as snippet its first \<open>max_chars\<close>
  characters followed by the marker \<open>" \<dots>"\<close> (a space and U+2026); a text that is not
  longer gets its flattened form. The entry that a successful row adds to \<open>docs\<close> carries
  this snippet of the text file as it is read back.
\<close>

theorem snippet_truncation:
  "0 \<le> n \<Longrightarrow>
   (n < int (length (flatten c)) \<longrightarrow>
      snippet_of c n = take (nat n) (flatten c) @ ellipsis \<and>
      length (take (nat n) (flatten c)) = nat n) \<and>
   (int (length (flatten c)) \<le> n \<longrightarrow> snippet_of c n = flatten c) \<and>
   (fst (try_block ev a url d p w) = None \<longrightarrow>
      (\<exists>l e data. docs (snd (try_block ev a url d p w)) = DList (l @ [e]) \<and>
         files (snd (try_block ev a url d p w)) p = Some data \<and>
         d_snippet e = snippet_of (case decode ev data of Inl x \<Rightarrow> [] | Inr t \<Rightarrow> t) (max_chars a)))"
proof (intro conjI impI)
  assume n: "0 \<le> n"
  { assume "n < int (length (flatten c))"
    then show "snippet_of c n = take (nat n) (flatten c) @ ellipsis"
      using n by (simp add: snippet_of_def truncate_long)
    show "length (take (nat n) (flatten c)) = nat n"
      using n \<open>n < int (length (flatten c))\<close> by simp }
  { assume "int (length (flatten c)) \<le> n"
    then show "snippet_of c n = flatten c" by (simp add: snippet_of_def truncate_short) }
  { assume "fst (try_block ev a url d p w) = None"
    from try_block_ok [OF this] obtain pdf w1 w2 data rel l where
      f: "files w2 p = Some data" and
      s: "snd (try_block ev a url d p w) =
             w2\<lparr>meta_csv := Some (meta_rows w2 @
                    [\<lparr>m_date = d, m_pdf_url = url, m_text_relpath = rel, m_chars = length data,
                      m_sha256_bytes = sha256_hex ev pdf\<rparr>]),
                docs := DList (l @
                    [\<lparr>d_id = md5_hex ev url, d_date = d, d_pdf_url = url, d_text_relpath = rel,
                      d_snippet = snippet_of (case decode ev data of Inl e \<Rightarrow> [] | Inr t \<Rightarrow> t)
                                    (max_chars a)\<rparr>]),
                pauses := Suc (pauses w2)\<rparr>"
      by blast
    show "\<exists>l e data. docs (snd (try_block ev a url d p w)) = DList (l @ [e]) \<and>
         files (snd (try_block ev a url d p w)) p = Some data \<and>
         d_snippet e = snippet_of (case decode ev data of Inl x \<Rightarrow> [] | Inr t \<Rightarrow> t) (max_chars a)"
      unfolding s using f by auto }
qed

theorem snippet_truncation_witness:
  "(0::int) \<le> 5 \<and>
   snippet_of (ascii ''trabajo'' @ 10 # ascii ''fin'') 5 = ascii ''traba'' @ [32, 8230] \<and>
   snippet_of (ascii ''ab'' @ 10 # ascii ''c'') 5 = ascii ''ab c'' \<and>
   fst (try_block demo_env demo_args (ascii ''u'') [] (ascii ''p'') new_world) = None \<and>
   (\<exists>l e data.
      docs (snd (try_block demo_env demo_args (ascii ''u'') [] (ascii ''p'') new_world)) = DList (l @ [e]) \<and>
      files (snd (try_block demo_env demo_args (ascii ''u'') [] (ascii ''p'') new_world)) (ascii ''p'') = Some data \<and>
      d_snippet e = snippet_of (case decode demo_env data of Inl x \<Rightarrow> [] | Inr t \<Rightarrow> t) (max_chars demo_args))"
proof -
  have h: "fst (try_block demo_env demo_args (ascii ''u'') [] (ascii ''p'') new_world) = None"
    by code_simp
  have l1: "(5::int) < int (length (flatten (ascii ''trabajo'' @ 10 # ascii ''fin'')))"
    by (simp add: flatten_def ascii_def)
  have l2: "int (length (flatten (ascii ''ab'' @ 10 # ascii ''c''))) \<le> 5"
    by (simp add: flatten_def ascii_def)
  from snippet_truncation [of 5 "ascii ''trabajo'' @ 10 # ascii ''fin''" demo_env demo_args "ascii ''u''" "[]" "ascii ''p''" new_world]
    snippet_truncation [of 5 "ascii ''ab'' @ 10 # ascii ''c''" demo_env demo_args "ascii ''u''" "[]" "ascii ''p''" new_world]
    h l1 l2
  show ?thesis
    by (simp add: flatten_def ascii_def ellipsis_def)
qed

section \<open>The required column\<close>

lemma process_row_not_exit: "fst (process_row ev a dn r w) \<noteq> Some (SystemExit c cs)"
  by (auto simp: process_row_def Let_def split: sum.splits prod.splits option.splits)

lemma run_rows_not_exit: "fst (run_rows ev a dn rs w) \<noteq> Some (SystemExit c cs)"
proof (induction rs arbitrary: w)
  case Nil
  show ?case by simp
next
  case (Cons r rs)
  show ?case
  proof (cases "process_row ev a dn r w")
    case (Pair x w')
    then show ?thesis
      using process_row_not_exit [of ev a dn r w c cs] Cons.IH [of w']
      by (cases x) auto
  qed
qed

text \<open>
  Claim C4, amended. If the URL column is absent from the manifest, the run ends at once
  with \<open>SystemExit\<close> on a message that names the column and lists the columns present,
  the exit status is not 0, and the state is as it was: no row is processed. Only the URL
  column is looked up: with the URL column present the run never ends on \<open>SystemExit\<close>,
  and the other column names, the date column among them, have no effect on it.
\<close>

theorem missing_url_column_aborts:
  "(col_url a \<notin> set (columns df) \<longrightarrow>
      main ev a df w = (Some (SystemExit (col_url a) (columns df)), w) \<and>
      exit_status (fst (main ev a df w)) \<noteq> 0) \<and>
   (col_url a \<in> set (columns df) \<longrightarrow>
      fst (main ev a df w) \<noteq> Some (SystemExit c cs) \<and>
      (col_url a \<in> set cols \<longrightarrow> main ev a (df\<lparr>columns := cols\<rparr>) w = main ev a df w))"
proof (intro conjI impI)
  assume h: "col_url a \<notin> set (columns df)"
  then show m: "main ev a df w = (Some (SystemExit (col_url a) (columns df)), w)"
    by (simp add: main_def)
  show "exit_status (fst (main ev a df w)) \<noteq> 0"
    by (simp add: m exit_status_def)
next
  assume h: "col_url a \<in> set (columns df)"
  let ?r = "run_rows ev a (load_done a w) (selected_rows a df)
                (w\<lparr>meta_csv := Some (meta_rows w), docs := load_docs (docs_json w)\<rparr>)"
  have "fst ?r \<noteq> Some (SystemExit c cs)" by (rule run_rows_not_exit)
  then show "fst (main ev a df w) \<noteq> Some (SystemExit c cs)"
    using h by (cases ?r; cases "fst ?r") (auto simp: main_def)
  { assume "col_url a \<in> set cols"
    then show "main ev a (df\<lparr>columns := cols\<rparr>) w = main ev a df w"
      using h by (simp add: main_def selected_rows_def) }
qed

theorem missing_url_column_aborts_witness:
  "col_url demo_args \<notin> set (columns no_url_column) \<and>
   main demo_env demo_args no_url_column new_world =
     (Some (SystemExit (ascii ''pdf'') [ascii ''fecha'']), new_world) \<and>
   exit_status (fst (main demo_env demo_args no_url_column new_world)) \<noteq> 0 \<and>
   col_url demo_args \<in> set (columns one_row) \<and>
   fst (main demo_env demo_args one_row new_world) \<noteq> Some (SystemExit [] [])"
proof -
  have h1: "col_url demo_args \<notin> set (columns no_url_column)"
    by (simp add: demo_args_def no_url_column_def ascii_def)
  have h2: "col_url demo_args \<in> set (columns one_row)"
    by (simp add: demo_args_def one_row_def)
  from missing_url_column_aborts [of demo_args no_url_column demo_env new_world "[]" "[]" "[]"]
    missing_url_column_aborts [of demo_args one_row demo_env new_world "[]" "[]" "[]"] h1 h2
  show ?thesis by (simp add: demo_args_def no_url_column_def exit_status_def)
qed

text \<open>
  The claim as stated fails for the date column: a manifest that has the URL column and no
  date column is processed, its row is fetched and logged, and the exit status is 0.
\<close>

theorem missing_date_column_counterexample:
  "col_date demo_args \<notin> set (columns one_row) \<and>
   exit_status (fst (main demo_env demo_args one_row new_world)) = 0 \<and>
   length (requests (snd (main demo_env demo_args one_row new_world))) = 1 \<and>
   length (meta_rows (snd (main demo_env demo_args one_row new_world))) = 1"
  by code_simp

section \<open>Skip or rewrite\<close>



section \<open>A failing row is logged and the run goes on\<close>

lemma try_block_errors: "errors (snd (try_block ev a url d p w)) = errors w"
proof (cases rule: try_block_cases [where ev = ev and url = url and w = w and a = a and p = p and d = d])
  case (fetch_failed e w1)
  with fetch_pdf_bytes_frame [OF fetch_failed(1)] show ?thesis by simp
next
  case (step_failed pdf w1 e w2)
  with fetch_pdf_bytes_frame [OF step_failed(1)] write_text_step_frame [OF step_failed(2)]
  show ?thesis by simp
next
  case (late_failure pdf w1 w2 e)
  with fetch_pdf_bytes_frame [OF late_failure(1)] write_text_step_frame [OF late_failure(2)]
  show ?thesis by simp
next
  case (no_list pdf w1 w2 data rel)
  with fetch_pdf_bytes_frame [OF no_list(1)] write_text_step_frame [OF no_list(2)]
  show ?thesis by simp
next
  case (pause_failed pdf w1 w2 data rel l e)
  with fetch_pdf_bytes_frame [OF pause_failed(1)] write_text_step_frame [OF pause_failed(2)]
  show ?thesis by simp
next
  case (ok pdf w1 w2 data rel l)
  with fetch_pdf_bytes_frame [OF ok(1)] write_text_step_frame [OF ok(2)]
  show ?thesis by simp
qed

lemma try_block_meta:
  "(meta_csv (snd (try_block ev a url d p w)) = meta_csv w \<and>
      docs (snd (try_block ev a url d p w)) = docs w \<and>
      fst (try_block ev a url d p w) \<noteq> None) \<or>
   (\<exists>pdf w1 w2 rec.
      fetch_pdf_bytes (net ev) url 90 3 2 w = (Inr pdf, w1) \<and>
      write_text_step ev a p pdf w1 = (None, w2) \<and>
      meta_csv (snd (try_block ev a url d p w)) = Some (meta_rows w @ [rec]) \<and>
      m_pdf_url rec = url \<and>
      (fst (try_block ev a url d p w) = None \<or> docs w = DOther \<or>
       (docs w \<noteq> DOther \<and> fst (try_block ev a url d p w) = time_sleep ev (sleep a))))"
proof (cases rule: try_block_cases [where ev = ev and url = url and w = w and a = a and p = p and d = d])
  case (fetch_failed e w1)
  with fetch_pdf_bytes_frame [OF fetch_failed(1)] show ?thesis by simp
next
  case (step_failed pdf w1 e w2)
  with fetch_pdf_bytes_frame [OF step_failed(1)] write_text_step_frame [OF step_failed(2)]
  show ?thesis by simp
next
  case (late_failure pdf w1 w2 e)
  with fetch_pdf_bytes_frame [OF late_failure(1)] write_text_step_frame [OF late_failure(2)]
  show ?thesis by simp
next
  case (no_list pdf w1 w2 data rel)
  from fetch_pdf_bytes_frame [OF no_list(1)] write_text_step_frame [OF no_list(2)]
  have "meta_rows w2 = meta_rows w" "docs w = DOther"
    using no_list(5) by (simp_all add: meta_rows_def)
  with no_list show ?thesis by auto
next
  case (pause_failed pdf w1 w2 data rel l e)
  from fetch_pdf_bytes_frame [OF pause_failed(1)] write_text_step_frame [OF pause_failed(2)]
  have mr: "meta_rows w2 = meta_rows w" and dw: "docs w = docs w2"
    by (simp_all add: meta_rows_def)
  from dw pause_failed(5) have "docs w \<noteq> DOther" by simp
  with mr pause_failed show ?thesis by auto
next
  case (ok pdf w1 w2 data rel l)
  from fetch_pdf_bytes_frame [OF ok(1)] write_text_step_frame [OF ok(2)]
  have "meta_rows w2 = meta_rows w" by (simp add: meta_rows_def)
  with ok show ?thesis by auto
qed

lemma try_block_keeps_list:
  "docs w = DList l \<Longrightarrow> \<exists>l'. docs (snd (try_block ev a url d p w)) = DList l'"
proof (cases rule: try_block_cases [where ev = ev and url = url and w = w and a = a and p = p and d = d])
  case (fetch_failed e w1)
  with fetch_pdf_bytes_frame [OF fetch_failed(1)] show "docs w = DList l \<Longrightarrow> ?thesis" by simp
next
  case (step_failed pdf w1 e w2)
  with fetch_pdf_bytes_frame [OF step_failed(1)] write_text_step_frame [OF step_failed(2)]
  show "docs w = DList l \<Longrightarrow> ?thesis" by simp
next
  case (late_failure pdf w1 w2 e)
  with fetch_pdf_bytes_frame [OF late_failure(1)] write_text_step_frame [OF late_failure(2)]
  show "docs w = DList l \<Longrightarrow> ?thesis" by simp
next
  case (no_list pdf w1 w2 data rel)
  with fetch_pdf_bytes_frame [OF no_list(1)] write_text_step_frame [OF no_list(2)]
  show "docs w = DList l \<Longrightarrow> ?thesis" by simp
next
  case (pause_failed pdf w1 w2 data rel l' e)
  then show "docs w = DList l \<Longrightarrow> ?thesis" by simp
next
  case (ok pdf w1 w2 data rel l')
  then show "docs w = DList l \<Longrightarrow> ?thesis" by simp
qed

lemma process_row_run:
  "\<not> is_skipped a dn r \<Longrightarrow>
   text_path ev (format_date ev (row_get r (col_date a))) (row_url a r) = Inr p \<Longrightarrow>
   process_row ev a dn r w =
     (case try_block ev a (row_url a r) (format_date ev (row_get r (col_date a))) p w of
        (None, w') \<Rightarrow> (None, w')
      | (Some e, w') \<Rightarrow> (None, w'\<lparr>errors := errors w' @ [(row_url a r, e)]\<rparr>))"
  by (auto simp: process_row_def is_skipped_def Let_def)

lemma process_row_skipped: "is_skipped a dn r \<Longrightarrow> process_row ev a dn r w = (None, w)"
  by (auto simp: process_row_def is_skipped_def Let_def)

text \<open>
  With \<open>docs\<close> a list and a pause that does not raise, a row that is not skipped adds
  one metadata record or one error line.
\<close>

lemma process_row_count:
  assumes "docs w = DList l" and "fst (process_row ev a dn r w) = None"
    and "time_sleep ev (sleep a) = None"
  shows "(\<exists>l'. docs (snd (process_row ev a dn r w)) = DList l') \<and>
         length (meta_rows (snd (process_row ev a dn r w))) +
           length (errors (snd (process_row ev a dn r w))) =
         length (meta_rows w) + length (errors w) + (if is_skipped a dn r then 0 else 1)"
proof (cases "is_skipped a dn r")
  case True
  then show ?thesis using assms by (simp add: process_row_skipped)
next
  case False
  let ?u = "row_url a r" and ?d = "format_date ev (row_get r (col_date a))"
  from False assms(2) obtain p where p: "text_path ev ?d ?u = Inr p"
    by (cases "text_path ev ?d ?u") (auto simp: process_row_def is_skipped_def Let_def)
  let ?tb = "try_block ev a ?u ?d p w"
  note pr = process_row_run [OF False p, of w]
  from try_block_keeps_list [OF assms(1), of ev a ?u ?d p] obtain l' where
    l': "docs (snd ?tb) = DList l'" by blast
  have er: "errors (snd ?tb) = errors w" by (rule try_block_errors)
  from try_block_meta [of ev a ?u ?d p w] assms(1) assms(3)
  consider (failed) "meta_csv (snd ?tb) = meta_csv w" "fst ?tb \<noteq> None"
    | (appended) rec where "meta_csv (snd ?tb) = Some (meta_rows w @ [rec])" "fst ?tb = None"
    by auto
  then show ?thesis
  proof cases
    case failed
    then obtain e where e: "fst ?tb = Some e" by auto
    then have "process_row ev a dn r w = (None, (snd ?tb)\<lparr>errors := errors (snd ?tb) @ [(?u, e)]\<rparr>)"
      using pr by (cases ?tb) auto
    then show ?thesis using failed l' er False by (simp add: meta_rows_def)
  next
    case appended
    then have "process_row ev a dn r w = (None, snd ?tb)"
      using pr by (cases ?tb) auto
    then show ?thesis using appended l' er False by (simp add: meta_rows_def)
  qed
qed

lemma run_rows_count:
  "docs w = DList l \<Longrightarrow> fst (run_rows ev a dn rs w) = None \<Longrightarrow>
   time_sleep ev (sleep a) = None \<Longrightarrow>
   length (meta_rows (snd (run_rows ev a dn rs w))) + length (errors (snd (run_rows ev a dn rs w))) =
   length (meta_rows w) + length (errors w) + length (filter (\<lambda>r. \<not> is_skipped a dn r) rs)"
proof (induction rs arbitrary: w l)
  case Nil
  then show ?case by simp
next
  case (Cons r rs)
  obtain x w' where pr: "process_row ev a dn r w = (x, w')" by (cases "process_row ev a dn r w")
  with Cons.prems(2) have x: "x = None" by (cases x) auto
  from process_row_count [OF Cons.prems(1) _ Cons.prems(3), of dn r] pr x obtain l' where
    l': "docs w' = DList l'" and
    c: "length (meta_rows w') + length (errors w') =
        length (meta_rows w) + length (errors w) + (if is_skipped a dn r then 0 else 1)"
    by auto
  from Cons.prems(2) pr x have "fst (run_rows ev a dn rs w') = None" by simp
  from Cons.IH [OF l' this Cons.prems(3)] c pr x show ?case by simp
qed

lemma time_sleep_ok:
  "time_sleep ev x = None \<longleftrightarrow> (\<exists>m e. x = Finite m e \<and> 0 \<le> m \<and> \<not> time_t_overflow ev m e)"
  by (cases x) auto

text \<open>
  Claim C7, amended. For a row that is not skipped and whose path could be prepared,
  whatever happens inside the \<open>try\<close> block the run goes on with the next row. If the
  block ends on an exception, one error line with the row's URL and that exception is
  printed. If the download fails, or the extraction, normalization or writing of the text
  fails, no metadata record is appended. A metadata record is appended only after the
  download and the text step have both succeeded, and it is the record of this URL. The
  pause after the row is inside the block: when \<open>time.sleep(args.sleep)\<close> raises, which it
  does exactly when \<open>--sleep\<close> is NaN, negative or too long for the platform, a row whose
  record was appended gets an error line as well. With \<open>docs\<close> a list and a pause that
  does not raise, a run that is not aborted adds, for each row it does not skip, either
  one metadata record or one error line: three such rows with one failure give two records
  and one error line.
\<close>

theorem row_failure_isolated:
  "\<not> is_skipped a dn r \<Longrightarrow>
   text_path ev (format_date ev (row_get r (col_date a))) (row_url a r) = Inr p \<Longrightarrow>
   fst (process_row ev a dn r w) = None \<and>
   (\<forall>e. fst (try_block ev a (row_url a r) (format_date ev (row_get r (col_date a))) p w) = Some e \<longrightarrow>
        errors (snd (process_row ev a dn r w)) = errors w @ [(row_url a r, e)]) \<and>
   (fst (try_block ev a (row_url a r) (format_date ev (row_get r (col_date a))) p w) = None \<longrightarrow>
        errors (snd (process_row ev a dn r w)) = errors w) \<and>
   (\<forall>e. fst (fetch_pdf_bytes (net ev) (row_url a r) 90 3 2 w) = Inl e \<longrightarrow>
        fst (try_block ev a (row_url a r) (format_date ev (row_get r (col_date a))) p w) = Some e \<and>
        meta_csv (snd (process_row ev a dn r w)) = meta_csv w) \<and>
   (\<forall>pdf w1 e. fetch_pdf_bytes (net ev) (row_url a r) 90 3 2 w = (Inr pdf, w1) \<and>
        fst (write_text_step ev a p pdf w1) = Some e \<longrightarrow>
        fst (try_block ev a (row_url a r) (format_date ev (row_get r (col_date a))) p w) = Some e \<and>
        meta_csv (snd (process_row ev a dn r w)) = meta_csv w) \<and>
   (meta_csv (snd (process_row ev a dn r w)) \<noteq> meta_csv w \<longrightarrow>
      (\<exists>pdf w1 w2 rec.
         fetch_pdf_bytes (net ev) (row_url a r) 90 3 2 w = (Inr pdf, w1) \<and>
         write_text_step ev a p pdf w1 = (None, w2) \<and>
         meta_csv (snd (process_row ev a dn r w)) = Some (meta_rows w @ [rec]) \<and>
         m_pdf_url rec = row_url a r)) \<and>
   (\<forall>e. time_sleep ev (sleep a) = Some e \<and> docs w \<noteq> DOther \<and>
        meta_csv (snd (process_row ev a dn r w)) \<noteq> meta_csv w \<longrightarrow>
        errors (snd (process_row ev a dn r w)) = errors w @ [(row_url a r, e)]) \<and>
   (time_sleep ev (sleep a) = None \<longleftrightarrow>
      (\<exists>m e. sleep a = Finite m e \<and> 0 \<le> m \<and> \<not> time_t_overflow ev m e)) \<and>
   (docs w = DList l \<and> time_sleep ev (sleep a) = None \<and> fst (run_rows ev a dn rs w) = None \<longrightarrow>
      length (meta_rows (snd (run_rows ev a dn rs w))) + length (errors (snd (run_rows ev a dn rs w))) =
      length (meta_rows w) + length (errors w) + length (filter (\<lambda>r. \<not> is_skipped a dn r) rs))"
proof -
  assume sk: "\<not> is_skipped a dn r"
    and p: "text_path ev (format_date ev (row_get r (col_date a))) (row_url a r) = Inr p"
  let ?u = "row_url a r" and ?d = "format_date ev (row_get r (col_date a))"
  let ?tb = "try_block ev a ?u ?d p w"
  let ?pr = "process_row ev a dn r w"
  note pr = process_row_run [OF sk p, of w]
  have er: "errors (snd ?tb) = errors w" by (rule try_block_errors)
  have A: "fst ?pr = None"
    using pr by (cases ?tb; cases "fst ?tb") auto
  have B: "errors (snd ?pr) = errors w @ [(?u, e)]" if "fst ?tb = Some e" for e
    using pr that er by (cases ?tb) auto
  have C: "errors (snd ?pr) = errors w" if "fst ?tb = None"
    using pr that er by (cases ?tb) auto
  have M: "meta_csv (snd ?pr) = meta_csv (snd ?tb)"
    using pr by (cases ?tb; cases "fst ?tb") auto
  have D: "fst ?tb = Some e \<and> meta_csv (snd ?pr) = meta_csv w"
    if "fst (fetch_pdf_bytes (net ev) ?u 90 3 2 w) = Inl e" for e
  proof -
    from that obtain w1 where f: "fetch_pdf_bytes (net ev) ?u 90 3 2 w = (Inl e, w1)"
      by (cases "fetch_pdf_bytes (net ev) ?u 90 3 2 w") auto
    from try_block_fetch_fails [OF f] fetch_pdf_bytes_frame [OF f] M show ?thesis by simp
  qed
  have E: "fst ?tb = Some e \<and> meta_csv (snd ?pr) = meta_csv w"
    if "fetch_pdf_bytes (net ev) ?u 90 3 2 w = (Inr pdf, w1) \<and> fst (write_text_step ev a p pdf w1) = Some e"
    for pdf w1 e
  proof -
    from that obtain w2 where f: "fetch_pdf_bytes (net ev) ?u 90 3 2 w = (Inr pdf, w1)"
      and s: "write_text_step ev a p pdf w1 = (Some e, w2)"
      by (cases "write_text_step ev a p pdf w1") auto
    from try_block_step_fails [OF f s] fetch_pdf_bytes_frame [OF f] write_text_step_frame [OF s] M
    show ?thesis by simp
  qed
  have F: "\<exists>pdf w1 w2 rec.
         fetch_pdf_bytes (net ev) ?u 90 3 2 w = (Inr pdf, w1) \<and>
         write_text_step ev a p pdf w1 = (None, w2) \<and>
         meta_csv (snd ?pr) = Some (meta_rows w @ [rec]) \<and> m_pdf_url rec = ?u"
    if "meta_csv (snd ?pr) \<noteq> meta_csv w"
    using try_block_meta [of ev a ?u ?d p w] that M by auto
  have H: "errors (snd ?pr) = errors w @ [(?u, e)]"
    if "time_sleep ev (sleep a) = Some e \<and> docs w \<noteq> DOther \<and> meta_csv (snd ?pr) \<noteq> meta_csv w"
    for e
  proof -
    from try_block_meta [of ev a ?u ?d p w] that M have
      "fst ?tb = None \<or> fst ?tb = time_sleep ev (sleep a)" by auto
    moreover have "fst ?tb \<noteq> None"
    proof
      assume n: "fst ?tb = None"
      from try_block_ok_pause [OF n] that show False by simp
    qed
    ultimately have "fst ?tb = Some e" using that by simp
    then show ?thesis by (rule B)
  qed
  have I: "time_sleep ev (sleep a) = None \<longleftrightarrow>
      (\<exists>m e. sleep a = Finite m e \<and> 0 \<le> m \<and> \<not> time_t_overflow ev m e)"
    by (rule time_sleep_ok)
  have G: "length (meta_rows (snd (run_rows ev a dn rs w))) + length (errors (snd (run_rows ev a dn rs w))) =
      length (meta_rows w) + length (errors w) + length (filter (\<lambda>r. \<not> is_skipped a dn r) rs)"
    if "docs w = DList l \<and> time_sleep ev (sleep a) = None \<and> fst (run_rows ev a dn rs w) = None"
    using that run_rows_count [of w l ev a dn rs] by simp
  from A B C D E F H I G show ?thesis by blast
qed

theorem row_failure_isolated_witness:
  "\<not> is_skipped demo_args {} (demo_row ''http://down/y.pdf'') \<and>
   time_sleep demo_env (sleep demo_args) = None \<and>
   fst (process_row demo_env demo_args {} (demo_row ''http://down/y.pdf'') new_world) = None \<and>
   errors (snd (process_row demo_env demo_args {} (demo_row ''http://down/y.pdf'') new_world)) =
     [(ascii ''http://down/y.pdf'',
       RuntimeError (ascii ''http://down/y.pdf'') (Some (Transport (ascii ''timed out''))))] \<and>
   meta_csv (snd (process_row demo_env demo_args {} (demo_row ''http://down/y.pdf'') new_world)) = None \<and>
   fst (run_rows demo_env demo_args {} (rows three_rows) new_world) = None \<and>
   length (errors (snd (run_rows demo_env demo_args {} (rows three_rows) new_world))) = 1 \<and>
   length (meta_rows (snd (run_rows demo_env demo_args {} (rows three_rows) new_world))) = 2 \<and>
   fst (main demo_env demo_args three_rows new_world) = None \<and>
   length (meta_rows (snd (main demo_env demo_args three_rows new_world))) = 2"
proof -
  let ?r = "demo_row ''http://down/y.pdf''"
  let ?u = "ascii ''http://down/y.pdf''"
  have u: "row_url demo_args ?r = ?u" by code_simp
  have sk: "\<not> is_skipped demo_args {} ?r"
    unfolding is_skipped_def u by (simp add: startswith_def py_lower_def ascii_def)
  have p: "text_path demo_env (format_date demo_env (row_get ?r (col_date demo_args)))
             (row_url demo_args ?r) = Inr (ascii ''texts/'' @ ?u @ ascii ''.txt'')"
    unfolding u by (simp add: demo_env_def)
  have f: "fst (fetch_pdf_bytes (net demo_env) (row_url demo_args ?r) 90 3 2 new_world) =
             Inl (RuntimeError ?u (Some (Transport (ascii ''timed out''))))"
    unfolding u by code_simp
  have d: "docs new_world = DList []" by (simp add: new_world_def)
  have ps: "time_sleep demo_env (sleep demo_args) = None"
    by (simp add: demo_args_def demo_env_def)
  have r: "fst (run_rows demo_env demo_args {} (rows three_rows) new_world) = None" by code_simp
  have e1: "length (errors (snd (run_rows demo_env demo_args {} (rows three_rows) new_world))) = 1"
    by code_simp
  have n: "length (filter (\<lambda>r. \<not> is_skipped demo_args {} r) (rows three_rows)) = 3"
    by code_simp
  have m: "fst (main demo_env demo_args three_rows new_world) = None \<and>
           length (meta_rows (snd (main demo_env demo_args three_rows new_world))) = 2"
    by code_simp
  have w0: "errors new_world = []" "meta_csv new_world = None" "meta_rows new_world = []"
    by (simp_all add: new_world_def meta_rows_def)
  from row_failure_isolated [OF sk p, where w = new_world and l = "[]" and rs = "rows three_rows"]
    f d ps r e1 n m w0 u sk
  show ?thesis by simp
qed

text \<open>
  The claim as stated fails: with \<open>--sleep -1\<close> the same three rows, one whose download
  fails and two whose text is fetched, extracted, normalized and written, give two metadata
  records and three error lines, since the pause raises after each record is appended.
\<close>

theorem failing_pause_counterexample:
  "time_sleep demo_env (sleep (demo_args\<lparr>sleep := Finite (- 1) 0\<rparr>)) =
     Some (Raised (ascii ''ValueError'')) \<and>
   fst (main demo_env (demo_args\<lparr>sleep := Finite (- 1) 0\<rparr>) three_rows new_world) = None \<and>
   length (meta_rows (snd (main demo_env (demo_args\<lparr>sleep := Finite (- 1) 0\<rparr>) three_rows new_world))) = 2 \<and>
   length (errors (snd (main demo_env (demo_args\<lparr>sleep := Finite (- 1) 0\<rparr>) three_rows new_world))) = 3"
  by code_simp

section \<open>Entries of the snippet index\<close>

lemma doc_urls_load [simp]: "doc_urls (load_docs j) = index_urls j"
  by (cases j) simp_all

lemma index_urls_dump [simp]: "index_urls (dump_docs d) = doc_urls d"
  by (cases d) simp_all

lemma try_block_doc_urls:
  "doc_urls (docs (snd (try_block ev a url d p w))) = doc_urls (docs w) \<or>
   doc_urls (docs (snd (try_block ev a url d p w))) = doc_urls (docs w) @ [url]"
proof (cases rule: try_block_cases [where ev = ev and url = url and w = w and a = a and p = p and d = d])
  case (fetch_failed e w1)
  with fetch_pdf_bytes_frame [OF fetch_failed(1)] show ?thesis by simp
next
  case (step_failed pdf w1 e w2)
  with fetch_pdf_bytes_frame [OF step_failed(1)] write_text_step_frame [OF step_failed(2)]
  show ?thesis by simp
next
  case (late_failure pdf w1 w2 e)
  with fetch_pdf_bytes_frame [OF late_failure(1)] write_text_step_frame [OF late_failure(2)]
  show ?thesis by simp
next
  case (no_list pdf w1 w2 data rel)
  with fetch_pdf_bytes_frame [OF no_list(1)] write_text_step_frame [OF no_list(2)]
  show ?thesis by simp
next
  case (pause_failed pdf w1 w2 data rel l e)
  from fetch_pdf_bytes_frame [OF pause_failed(1)] write_text_step_frame [OF pause_failed(2)]
    pause_failed(5)
  have "docs w = DList l" by simp
  with pause_failed(7) show ?thesis by simp
next
  case (ok pdf w1 w2 data rel l)
  from fetch_pdf_bytes_frame [OF ok(1)] write_text_step_frame [OF ok(2)] ok(5)
  have "docs w = DList l" by simp
  with ok(6) show ?thesis by simp
qed

lemma process_row_doc_urls:
  "doc_urls (docs (snd (process_row ev a dn r w))) = doc_urls (docs w) \<or>
   (\<not> is_skipped a dn r \<and>
    doc_urls (docs (snd (process_row ev a dn r w))) = doc_urls (docs w) @ [row_url a r])"
proof (cases "is_skipped a dn r")
  case True
  then show ?thesis by (simp add: process_row_skipped)
next
  case False
  let ?u = "row_url a r" and ?d = "format_date ev (row_get r (col_date a))"
  show ?thesis
  proof (cases "text_path ev ?d ?u")
    case (Inl e)
    with False have "process_row ev a dn r w = (Some (Raised e), w)"
      by (auto simp: process_row_def is_skipped_def Let_def)
    then show ?thesis by simp
  next
    case (Inr p)
    let ?tb = "try_block ev a ?u ?d p w"
    from process_row_run [OF False Inr, of w]
    have "docs (snd (process_row ev a dn r w)) = docs (snd ?tb)"
      by (cases ?tb; cases "fst ?tb") auto
    with try_block_doc_urls [of ev a ?u ?d p w] False show ?thesis by auto
  qed
qed

lemma run_rows_doc_urls:
  "distinct (map (row_url a) (filter (\<lambda>r. \<not> is_skipped a dn r) rs)) \<Longrightarrow>
   \<exists>us. doc_urls (docs (snd (run_rows ev a dn rs w))) = doc_urls (docs w) @ us \<and>
        distinct us \<and> set us \<subseteq> row_url a ` {r \<in> set rs. \<not> is_skipped a dn r}"
proof (induction rs arbitrary: w)
  case Nil
  show ?case by simp
next
  case (Cons r rs)
  obtain x w' where pr: "process_row ev a dn r w = (x, w')" by (cases "process_row ev a dn r w")
  from Cons.prems have dr: "distinct (map (row_url a) (filter (\<lambda>r. \<not> is_skipped a dn r) rs))"
    by (simp split: if_splits)
  from Cons.IH [OF dr, of w'] obtain us where
    us: "doc_urls (docs (snd (run_rows ev a dn rs w'))) = doc_urls (docs w') @ us"
      "distinct us" "set us \<subseteq> row_url a ` {r \<in> set rs. \<not> is_skipped a dn r}"
    by blast
  from process_row_doc_urls [of ev a dn r w] pr
  consider (same) "doc_urls (docs w') = doc_urls (docs w)"
    | (added) "\<not> is_skipped a dn r" "doc_urls (docs w') = doc_urls (docs w) @ [row_url a r]"
    by auto
  then show ?case
  proof cases
    case same
    show ?thesis
    proof (cases x)
      case None
      with pr us same show ?thesis by (intro exI [of _ us]) auto
    next
      case (Some e)
      with pr same show ?thesis by (intro exI [of _ "[]"]) auto
    qed
  next
    case added
    from added(1) Cons.prems have
      nin: "row_url a r \<notin> row_url a ` {r \<in> set rs. \<not> is_skipped a dn r}" by auto
    show ?thesis
    proof (cases x)
      case None
      with pr us added nin show ?thesis by (intro exI [of _ "row_url a r # us"]) auto
    next
      case (Some e)
      with pr added show ?thesis by (intro exI [of _ "[row_url a r]"]) auto
    qed
  qed
qed

lemma try_block_docs_json: "docs_json (snd (try_block ev a url d p w)) = docs_json w"
proof (cases rule: try_block_cases [where ev = ev and url = url and w = w and a = a and p = p and d = d])
  case (fetch_failed e w1)
  with fetch_pdf_bytes_frame [OF fetch_failed(1)] show ?thesis by simp
next
  case (step_failed pdf w1 e w2)
  with fetch_pdf_bytes_frame [OF step_failed(1)] write_text_step_frame [OF step_failed(2)]
  show ?thesis by simp
next
  case (late_failure pdf w1 w2 e)
  with fetch_pdf_bytes_frame [OF late_failure(1)] write_text_step_frame [OF late_failure(2)]
  show ?thesis by simp
next
  case (no_list pdf w1 w2 data rel)
  with fetch_pdf_bytes_frame [OF no_list(1)] write_text_step_frame [OF no_list(2)]
  show ?thesis by simp
next
  case (pause_failed pdf w1 w2 data rel l e)
  with fetch_pdf_bytes_frame [OF pause_failed(1)] write_text_step_frame [OF pause_failed(2)]
  show ?thesis by simp
next
  case (ok pdf w1 w2 data rel l)
  with fetch_pdf_bytes_frame [OF ok(1)] write_text_step_frame [OF ok(2)]
  show ?thesis by simp
qed

lemma process_row_docs_json: "docs_json (snd (process_row ev a dn r w)) = docs_json w"
proof (cases "is_skipped a dn r")
  case True
  then show ?thesis by (simp add: process_row_skipped)
next
  case False
  let ?u = "row_url a r" and ?d = "format_date ev (row_get r (col_date a))"
  show ?thesis
  proof (cases "text_path ev ?d ?u")
    case (Inl e)
    with False have "process_row ev a dn r w = (Some (Raised e), w)"
      by (auto simp: process_row_def is_skipped_def Let_def)
    then show ?thesis by simp
  next
    case (Inr p)
    let ?tb = "try_block ev a ?u ?d p w"
    from process_row_run [OF False Inr, of w]
    have "docs_json (snd (process_row ev a dn r w)) = docs_json (snd ?tb)"
      by (cases ?tb; cases "fst ?tb") auto
    then show ?thesis by (simp add: try_block_docs_json)
  qed
qed

lemma run_rows_docs_json: "docs_json (snd (run_rows ev a dn rs w)) = docs_json w"
proof (induction rs arbitrary: w)
  case Nil
  show ?case by simp
next
  case (Cons r rs)
  obtain x w' where pr: "process_row ev a dn r w = (x, w')" by (cases "process_row ev a dn r w")
  from process_row_docs_json [of ev a dn r w] pr have "docs_json w' = docs_json w" by simp
  with Cons.IH [of w'] pr show ?case by (cases x) auto
qed

lemma distinct_processed_take:
  "distinct (map f (filter P xs)) \<Longrightarrow> distinct (map f (filter P (take k xs)))"
proof -
  assume d: "distinct (map f (filter P xs))"
  have "map f (filter P xs) = map f (filter P (take k xs)) @ map f (filter P (drop k xs))"
    by (metis append_take_drop_id filter_append map_append)
  with d show ?thesis by simp
qed

lemma distinct_processed_selected:
  "distinct (map f (filter P (rows df))) \<Longrightarrow> distinct (map f (filter P (selected_rows a df)))"
  by (simp add: selected_rows_def slice_to_def distinct_processed_take)


text \<open>
  Claim C2, amended. The index that a run writes is the index it loaded followed by one
  entry for each row that succeeded, in order; nothing is removed or merged. It has at
  most one entry per URL when the run resumes (\<open>--resume\<close>) from a metadata log that
  holds every URL of the loaded index, the loaded index has at most one entry per URL, and
  no URL occurs twice among the rows that are not skipped.
\<close>

theorem resumed_index_without_duplicates:
  "resume a \<Longrightarrow> meta_csv w = Some lg \<Longrightarrow>
   distinct (index_urls (docs_json w)) \<Longrightarrow>
   set (index_urls (docs_json w)) \<subseteq> set (map m_pdf_url lg) \<Longrightarrow>
   distinct (map (row_url a) (filter (\<lambda>r. \<not> is_skipped a (set (map m_pdf_url lg)) r) (rows df))) \<Longrightarrow>
   distinct (index_urls (docs_json (snd (main ev a df w)))) \<and>
   (fst (main ev a df w) = None \<longrightarrow>
      (\<exists>us. index_urls (docs_json (snd (main ev a df w))) = index_urls (docs_json w) @ us \<and>
            set us \<subseteq> row_url a ` {r \<in> set (rows df). \<not> is_skipped a (set (map m_pdf_url lg)) r}))"
proof -
  assume r: "resume a" and lg: "meta_csv w = Some lg"
    and d0: "distinct (index_urls (docs_json w))"
    and s0: "set (index_urls (docs_json w)) \<subseteq> set (map m_pdf_url lg)"
    and dr: "distinct (map (row_url a) (filter (\<lambda>r. \<not> is_skipped a (set (map m_pdf_url lg)) r) (rows df)))"
  let ?dn = "set (map m_pdf_url lg)"
  let ?w = "w\<lparr>meta_csv := Some (meta_rows w), docs := load_docs (docs_json w)\<rparr>"
  let ?rr = "run_rows ev a ?dn (selected_rows a df) ?w"
  have dn: "load_done a w = ?dn" using r lg by (simp add: load_done_def)
  show ?thesis
  proof (cases "col_url a \<in> set (columns df)")
    case False
    then have "main ev a df w = (Some (SystemExit (col_url a) (columns df)), w)"
      by (simp add: main_def)
    then show ?thesis using d0 by simp
  next
    case True
    from run_rows_doc_urls [OF distinct_processed_selected [OF dr, where a = a], where ev = ev and w = ?w] obtain us where
      us: "doc_urls (docs (snd ?rr)) = index_urls (docs_json w) @ us" "distinct us"
        "set us \<subseteq> row_url a ` {r \<in> set (selected_rows a df). \<not> is_skipped a ?dn r}"
      by auto
    have disj: "set (index_urls (docs_json w)) \<inter> set us = {}"
      using us(3) s0 r by (auto simp: is_skipped_def)
    have sub: "set us \<subseteq> row_url a ` {r \<in> set (rows df). \<not> is_skipped a ?dn r}"
      using us(3) set_selected_rows [of a df] by auto
    show ?thesis
    proof (cases "fst ?rr")
      case None
      then have "main ev a df w = (None, (snd ?rr)\<lparr>docs_json := dump_docs (docs (snd ?rr))\<rparr>)"
        using True dn by (cases ?rr) (simp add: main_def)
      then show ?thesis using us d0 disj sub by auto
    next
      case (Some e)
      then have m: "main ev a df w = (Some e, snd ?rr)"
        using True dn by (cases ?rr) (simp add: main_def)
      have "docs_json (snd ?rr) = docs_json w"
        by (simp add: run_rows_docs_json)
      then show ?thesis using m d0 by simp
    qed
  qed
qed


theorem resumed_index_without_duplicates_witness:
  "resume (demo_args\<lparr>resume := True\<rparr>) \<and>
   meta_csv rerun_world = Some (the (meta_csv rerun_world)) \<and>
   index_urls (docs_json rerun_world) = [ascii ''http://a/x.pdf''] \<and>
   map m_pdf_url (the (meta_csv rerun_world)) = [ascii ''http://a/x.pdf''] \<and>
   distinct (map (row_url (demo_args\<lparr>resume := True\<rparr>))
     (filter (\<lambda>r. \<not> is_skipped (demo_args\<lparr>resume := True\<rparr>)
                      (set (map m_pdf_url (the (meta_csv rerun_world)))) r) (rows three_rows))) \<and>
   distinct (index_urls (docs_json (snd (main demo_env (demo_args\<lparr>resume := True\<rparr>) three_rows rerun_world)))) \<and>
   index_urls (docs_json (snd (main demo_env (demo_args\<lparr>resume := True\<rparr>) three_rows rerun_world))) =
     [ascii ''http://a/x.pdf'', ascii ''http://b/z.pdf'']"
proof -
  let ?a = "demo_args\<lparr>resume := True\<rparr>"
  let ?lg = "the (meta_csv rerun_world)"
  have h1: "resume ?a" by simp
  have h2: "meta_csv rerun_world = Some ?lg" by code_simp
  have i: "index_urls (docs_json rerun_world) = [ascii ''http://a/x.pdf'']" by code_simp
  have l: "map m_pdf_url ?lg = [ascii ''http://a/x.pdf'']" by code_simp
  have h3: "distinct (index_urls (docs_json rerun_world))" by (simp add: i)
  have h4: "set (index_urls (docs_json rerun_world)) \<subseteq> set (map m_pdf_url ?lg)" by (simp add: i l)
  have h5: "distinct (map (row_url ?a)
     (filter (\<lambda>r. \<not> is_skipped ?a (set (map m_pdf_url ?lg)) r) (rows three_rows)))"
    by code_simp
  have e: "index_urls (docs_json (snd (main demo_env ?a three_rows rerun_world))) =
     [ascii ''http://a/x.pdf'', ascii ''http://b/z.pdf'']"
    by code_simp
  from resumed_index_without_duplicates [OF h1 h2 h3 h4 h5, of demo_env] h1 h2 i l h5 e
  show ?thesis by simp
qed

text \<open>
  The claim as stated fails: a second run over the same one-row manifest, without
  \<open>--resume\<close>, loads the index of the first run and appends an entry for the same URL.
\<close>

theorem rerun_duplicates_counterexample:
  "distinct (index_urls (docs_json rerun_world)) \<and>
   \<not> distinct (index_urls (docs_json (snd (main demo_env demo_args one_row rerun_world))))"
  by code_simp

section \<open>Substitution in general\<close>

lemma re_sub_from_Nil [simp]: "re_sub_from m repl k p [] = []"
  by simp

lemma re_sub_from_skip:
  "k \<le> length s \<Longrightarrow>
   \<exists>q. re_sub_from m repl k p s = re_sub_from m repl 0 q (drop k s) \<and> (k = 0 \<longrightarrow> q = p)"
proof (induction s arbitrary: k p)
  case Nil
  then show ?case by simp
next
  case (Cons c cs)
  show ?case
  proof (cases k)
    case 0
    then show ?thesis by auto
  next
    case (Suc j)
    with Cons.prems have "j \<le> length cs" by simp
    from Cons.IH [OF this, of "Some c"] Suc show ?thesis by auto
  qed
qed

lemma re_sub_from_overrun: "length s \<le> k \<Longrightarrow> re_sub_from m repl k p s = []"
proof (induction s arbitrary: k p)
  case Nil
  show ?case by simp
next
  case (Cons c cs)
  then obtain j where "k = Suc j" "length cs \<le> j" by (cases k) auto
  with Cons.IH [of j "Some c"] show ?case by simp
qed

lemma re_sub_from_no_match:
  "(\<forall>q j. m q (drop j s) = None) \<Longrightarrow> re_sub_from m repl 0 p s = s"
proof (induction s arbitrary: p)
  case Nil
  show ?case by simp
next
  case (Cons c cs)
  from Cons.prems have "m p (c # cs) = None" by (metis drop0)
  moreover have "\<forall>q j. m q (drop j cs) = None"
  proof (intro allI)
    fix q j
    from Cons.prems have "m q (drop (Suc j) (c # cs)) = None" by blast
    then show "m q (drop j cs) = None" by simp
  qed
  ultimately show ?case using Cons.IH by simp
qed


lemma re_sub_from_set:
  "(\<forall>t. set (repl t) \<subseteq> set t \<union> X) \<Longrightarrow> set (re_sub_from m repl k p s) \<subseteq> set s \<union> X"
proof (induction s arbitrary: k p)
  case Nil
  show ?case by simp
next
  case (Cons c cs)
  note ih = Cons.IH [OF Cons.prems]
  show ?case
  proof (cases k)
    case (Suc j)
    with ih [of j "Some c"] show ?thesis by auto
  next
    case 0
    show ?thesis
    proof (cases "m p (c # cs)")
      case None
      with 0 ih [of 0 "Some c"] show ?thesis by auto
    next
      case (Some n)
      show ?thesis
      proof (cases n)
        case 0
        with Some \<open>k = 0\<close> ih [of 0 "Some c"] show ?thesis by auto
      next
        case (Suc j)
        from Cons.prems have "set (repl (take (Suc j) (c # cs))) \<subseteq> set (take (Suc j) (c # cs)) \<union> X"
          by blast
        moreover have "set (take (Suc j) (c # cs)) \<subseteq> set (c # cs)" by (rule set_take_subset)
        ultimately have "set (repl (take (Suc j) (c # cs))) \<subseteq> set (c # cs) \<union> X" by blast
        with Suc Some \<open>k = 0\<close> ih [of j "Some c"] show ?thesis by auto
      qed
    qed
  qed
qed

section \<open>Runs of a class\<close>

lemma no_run_Cons: "no_run P (a # s) \<longleftrightarrow> (s = [] \<or> \<not> (P a \<and> P (hd s))) \<and> no_run P s"
  by (cases s) auto

lemma no_run_append:
  "no_run P (xs @ ys) \<longleftrightarrow>
     no_run P xs \<and> no_run P ys \<and> (xs = [] \<or> ys = [] \<or> \<not> (P (last xs) \<and> P (hd ys)))"
proof (induction xs)
  case Nil
  show ?case by simp
next
  case (Cons a xs)
  show ?case
  proof (cases xs)
    case Nil
    then show ?thesis by (cases ys) auto
  next
    case (Cons b zs)
    with Cons.IH show ?thesis by auto
  qed
qed

lemma no_run_tl: "no_run P (a # s) \<Longrightarrow> no_run P s"
  by (simp add: no_run_Cons)

lemma no_run_drop: "no_run P s \<Longrightarrow> no_run P (drop k s)"
proof (induction k arbitrary: s)
  case 0
  then show ?case by simp
next
  case (Suc k)
  then show ?case by (cases s) (auto dest: no_run_tl)
qed

lemma no_run_takeWhile: "no_run P s \<Longrightarrow> length (takeWhile P s) < 2"
proof (cases s)
  case Nil
  then show ?thesis by simp
next
  case (Cons a r)
  assume "no_run P s"
  with Cons show ?thesis by (cases r) auto
qed

lemma run_of_none: "no_run P s \<Longrightarrow> run_of P q (drop j s) = None"
  using no_run_takeWhile [OF no_run_drop, of P s j] by (simp add: run_of_def Let_def)

lemma no_run_fixed: "no_run P s \<Longrightarrow> re_sub (run_of P) repl s = s"
  unfolding re_sub_def by (rule re_sub_from_no_match) (simp add: run_of_none)

text \<open>
  A substitution whose replacements are not empty, have no run of the class, and neither
  begin nor end in the class keeps a text free of runs of the class.
\<close>

lemma re_sub_from_no_run:
  assumes R: "\<And>q t n. m q t = Some (Suc n) \<Longrightarrow>
      repl (take (Suc n) t) \<noteq> [] \<and> \<not> P (hd (repl (take (Suc n) t))) \<and>
      \<not> P (last (repl (take (Suc n) t))) \<and> no_run P (repl (take (Suc n) t))"
  shows "no_run P (drop k s) \<Longrightarrow>
     no_run P (re_sub_from m repl k p s) \<and>
     (re_sub_from m repl k p s \<noteq> [] \<and> P (hd (re_sub_from m repl k p s)) \<longrightarrow>
        drop k s \<noteq> [] \<and> hd (drop k s) = hd (re_sub_from m repl k p s))"
proof (induction s arbitrary: k p)
  case Nil
  show ?case by simp
next
  case (Cons c cs)
  show ?case
  proof (cases k)
    case (Suc j)
    with Cons.prems have "no_run P (drop j cs)" by simp
    from Cons.IH [OF this, of "Some c"] Suc show ?thesis by simp
  next
    case 0
    with Cons.prems have nr: "no_run P (c # cs)" by simp
    then have nrc: "no_run P (drop 0 cs)" by (simp add: no_run_Cons)
    note ih0 = Cons.IH [OF nrc, of "Some c"]
    let ?X = "re_sub_from m repl 0 (Some c) cs"
    have plain: "no_run P (c # ?X) \<and> (P (hd (c # ?X)) \<longrightarrow> hd (c # cs) = hd (c # ?X))"
    proof -
      have "?X = [] \<or> \<not> (P c \<and> P (hd ?X))"
      proof (cases "?X \<noteq> [] \<and> P (hd ?X)")
        case True
        with ih0 have "cs \<noteq> []" "hd cs = hd ?X" by auto
        with nr True show ?thesis by (auto simp: no_run_Cons)
      next
        case False
        then show ?thesis by auto
      qed
      with ih0 show ?thesis by (simp add: no_run_Cons)
    qed
    show ?thesis
    proof (cases "m p (c # cs)")
      case None
      with 0 plain show ?thesis by simp
    next
      case (Some n)
      show ?thesis
      proof (cases n)
        case 0
        with Some \<open>k = 0\<close> plain show ?thesis by simp
      next
        case (Suc j)
        let ?r = "repl (take (Suc j) (c # cs))"
        let ?Y = "re_sub_from m repl j (Some c) cs"
        from R [of p "c # cs" j] Some Suc have
          r: "?r \<noteq> []" "\<not> P (hd ?r)" "\<not> P (last ?r)" "no_run P ?r" by auto
        from nr have "no_run P (drop j cs)"
          using no_run_drop [of P "c # cs" "Suc j"] by simp
        from Cons.IH [OF this, of "Some c"] have "no_run P ?Y" by simp
        with r have "no_run P (?r @ ?Y)" by (simp add: no_run_append)
        moreover have "hd (?r @ ?Y) = hd ?r" using r(1) by simp
        ultimately show ?thesis using Some Suc \<open>k = 0\<close> r by simp
      qed
    qed
  qed
qed

lemma re_sub_no_run:
  assumes "\<And>q t n. m q t = Some (Suc n) \<Longrightarrow>
      repl (take (Suc n) t) \<noteq> [] \<and> \<not> P (hd (repl (take (Suc n) t))) \<and>
      \<not> P (last (repl (take (Suc n) t))) \<and> no_run P (repl (take (Suc n) t))"
    and "no_run P s"
  shows "no_run P (re_sub m repl s)"
  using re_sub_from_no_run [of m repl P 0 s None, OF assms(1)] assms(2)
  by (simp add: re_sub_def)

section \<open>Collapsing runs\<close>

lemma run_of_Some:
  "run_of P p s = Some n \<Longrightarrow> n = length (takeWhile P s) \<and> 2 \<le> n"
  by (auto simp: run_of_def Let_def split: if_splits)

lemma collapse_from_no_run:
  "no_run P (re_sub_from (run_of P) (\<lambda>m. [c]) 0 p s) \<and>
   (\<forall>x xs. re_sub_from (run_of P) (\<lambda>m. [c]) 0 p s = x # xs \<longrightarrow> P x \<longrightarrow> s \<noteq> [] \<and> P (hd s))"
proof (induction "length s" arbitrary: s p rule: less_induct)
  case less
  show ?case
  proof (cases s)
    case Nil
    then show ?thesis by simp
  next
    case (Cons a cs)
    show ?thesis
    proof (cases "run_of P p (a # cs)")
      case None
      let ?X = "re_sub_from (run_of P) (\<lambda>m. [c]) 0 (Some a) cs"
      from less [of cs "Some a"] Cons have
        ih: "no_run P ?X" "\<forall>x xs. ?X = x # xs \<longrightarrow> P x \<longrightarrow> cs \<noteq> [] \<and> P (hd cs)" by auto
      have short: "\<not> (P a \<and> cs \<noteq> [] \<and> P (hd cs))"
      proof
        assume h: "P a \<and> cs \<noteq> [] \<and> P (hd cs)"
        then obtain b r where "cs = b # r" "P b" by (cases cs) auto
        with h have "2 \<le> length (takeWhile P (a # cs))" by simp
        with None show False by (simp add: run_of_def Let_def)
      qed
      have "?X = [] \<or> \<not> (P a \<and> P (hd ?X))"
      proof (cases ?X)
        case Nil
        then show ?thesis by simp
      next
        case (Cons x xs)
        with ih(2) short show ?thesis by auto
      qed
      with ih(1) have "no_run P (a # ?X)" by (simp add: no_run_Cons)
      with None Cons show ?thesis by simp
    next
      case (Some n)
      from run_of_Some [OF Some] have n: "n = length (takeWhile P (a # cs))" "2 \<le> n" by auto
      from n(2) obtain j where j: "n = Suc j" by (cases n) auto
      from n have pa: "P a" by (auto split: if_splits)
      have "length (takeWhile P (a # cs)) \<le> length (a # cs)" by (rule length_takeWhile_le)
      with n j have jl: "j \<le> length cs" by simp
      from re_sub_from_skip [OF jl, of "run_of P" "\<lambda>m. [c]" "Some a"] obtain q where
        q: "re_sub_from (run_of P) (\<lambda>m. [c]) j (Some a) cs =
            re_sub_from (run_of P) (\<lambda>m. [c]) 0 q (drop j cs)" by blast
      have dw: "drop j cs = dropWhile P (a # cs)"
        using n j by (metis drop_Suc_Cons dropWhile_eq_drop)
      let ?Y = "re_sub_from (run_of P) (\<lambda>m. [c]) 0 q (dropWhile P (a # cs))"
      have "length (dropWhile P (a # cs)) < length s"
        using Cons pa by (simp add: length_dropWhile_le le_imp_less_Suc)
      from less [OF this, of q] have
        ih: "no_run P ?Y"
          "\<forall>x xs. ?Y = x # xs \<longrightarrow> P x \<longrightarrow>
             dropWhile P (a # cs) \<noteq> [] \<and> P (hd (dropWhile P (a # cs)))" by auto
      have "?Y = [] \<or> \<not> P (hd ?Y)"
      proof (cases ?Y)
        case Nil
        then show ?thesis by simp
      next
        case (Cons x xs)
        with ih(2) hd_dropWhile [of P "a # cs"] show ?thesis by auto
      qed
      with ih(1) have "no_run P (c # ?Y)" by (auto simp: no_run_Cons)
      with Some j Cons q dw pa show ?thesis by simp
    qed
  qed
qed

lemma collapse_newlines_no_run: "no_run is_newline (collapse_newlines s)"
  using collapse_from_no_run [of is_newline 10 None s] by (simp add: collapse_newlines_def re_sub_def)

lemma collapse_blanks_no_run: "no_run is_blank (collapse_blanks s)"
  using collapse_from_no_run [of is_blank 32 None s] by (simp add: collapse_blanks_def re_sub_def)

lemma collapse_newlines_fixed: "no_run is_newline s \<Longrightarrow> collapse_newlines s = s"
  by (simp add: collapse_newlines_def no_run_fixed)

lemma collapse_blanks_fixed: "no_run is_blank s \<Longrightarrow> collapse_blanks s = s"
  by (simp add: collapse_blanks_def no_run_fixed)

lemma collapse_blanks_keeps_newlines:
  "no_run is_newline s \<Longrightarrow> no_run is_newline (collapse_blanks s)"
  unfolding collapse_blanks_def
  by (rule re_sub_no_run) (simp_all add: is_newline_def)

section \<open>What the letter pattern matches\<close>


lemma letter_not_newline: "is_letter c \<Longrightarrow> \<not> is_newline c"
  by (auto simp: is_letter_def is_newline_def)

lemma letter_not_32: "is_letter c \<Longrightarrow> c \<noteq> 32"
  by (auto simp: is_letter_def)

lemma try_pairs_Some:
  "try_pairs wd t k = Some n \<Longrightarrow>
   \<exists>j c r. 2 \<le> j \<and> j \<le> k \<and> n = 2 * j + 1 \<and> drop (2 * j) t = c # r \<and> is_letter c \<and> ahead wd c r"
proof (induction k)
  case 0
  then show ?case by simp
next
  case (Suc k)
  show ?case
  proof (cases "Suc k < 2")
    case True
    with Suc.prems show ?thesis by simp
  next
    case False
    show ?thesis
    proof (cases "drop (2 * Suc k) t")
      case Nil
      with False Suc.prems have "try_pairs wd t k = Some n" by simp
      from Suc.IH [OF this] show ?thesis using le_SucI by blast
    next
      case (Cons c r)
      show ?thesis
      proof (cases "is_letter c \<and> ahead wd c r")
        case True
        with False Cons Suc.prems have "n = 2 * Suc k + 1" by simp
        with True Cons False show ?thesis
          by (intro exI [of _ "Suc k"] exI [of _ c] exI [of _ r]) simp
      next
        case no: False
        with False Cons Suc.prems have "try_pairs wd t k = Some n" by auto
        from Suc.IH [OF this] show ?thesis using le_SucI by blast
      qed
    qed
  qed
qed

lemma pairs_letter_run:
  "j \<le> pairs t \<Longrightarrow> drop (2 * j) t = c # r \<Longrightarrow> is_letter c \<Longrightarrow> letter_run (take (2 * j + 1) t)"
proof (induction j arbitrary: t)
  case 0
  then show ?case by (cases t) auto
next
  case (Suc j)
  from Suc.prems(1) obtain a b t' where t: "t = a # b # t'"
    by (cases t rule: pairs.cases) auto
  with Suc.prems(1) have ab: "is_letter a" "is_space b" "j \<le> pairs t'"
    by (auto split: if_splits)
  from Suc.prems(2) t have "drop (2 * j) t' = c # r" by simp
  from Suc.IH [OF ab(3) this Suc.prems(3)] ab t show ?case by simp
qed

lemma spaced_letters_Some:
  assumes "spaced_letters wd p t = Some n"
  shows "letter_run (take n t) \<and> 5 \<le> n \<and> n \<le> length t"
proof -
  from assms have "try_pairs wd t (pairs t) = Some n"
    by (simp add: spaced_letters_def split: if_splits)
  from try_pairs_Some [OF this] obtain j c r where
    j: "2 \<le> j" "j \<le> pairs t" "n = 2 * j + 1" "drop (2 * j) t = c # r" "is_letter c" by blast
  from pairs_letter_run [OF j(2) j(4) j(5)] j(3) have "letter_run (take n t)" by simp
  moreover from j(4) have "2 * j < length t"
    by (metis drop_eq_Nil list.distinct(1) not_le)
  ultimately show ?thesis using j by simp
qed

lemma letter_run_joined:
  "letter_run m \<Longrightarrow>
   join_letters m \<noteq> [] \<and> is_letter (hd (join_letters m)) \<and> is_letter (last (join_letters m)) \<and>
   no_run is_newline (join_letters m)"
proof (induction m rule: letter_run.induct)
  case (1 a b r)
  then have ih: "join_letters r \<noteq> []" "is_letter (hd (join_letters r))"
      "is_letter (last (join_letters r))" "no_run is_newline (join_letters r)"
    and a: "is_letter a" by auto
  from a have a32: "a \<noteq> 32" by (rule letter_not_32)
  have nn: "\<not> is_newline (hd (join_letters r))" using ih(2) by (rule letter_not_newline)
  have na: "\<not> is_newline a" using a by (rule letter_not_newline)
  show ?case
  proof (cases "b = 32")
    case True
    with a32 have "join_letters (a # b # r) = a # join_letters r"
      by (simp add: join_letters_def remove_char_def)
    with ih a na show ?thesis by (simp add: no_run_Cons)
  next
    case False
    with a32 have "join_letters (a # b # r) = a # b # join_letters r"
      by (simp add: join_letters_def remove_char_def)
    with ih a na nn show ?thesis by (simp add: no_run_Cons)
  qed
next
  case (2 a)
  then show ?case
    by (simp add: join_letters_def remove_char_def letter_not_32)
next
  case 3
  then show ?case by simp
qed

lemma rejoin_keeps_newlines:
  "no_run is_newline s \<Longrightarrow> no_run is_newline (rejoin_letters wd s)"
  unfolding rejoin_letters_def
proof (rule re_sub_no_run)
  fix q t n
  assume "spaced_letters wd q t = Some (Suc n)"
  from spaced_letters_Some [OF this] have "letter_run (take (Suc n) t)" by simp
  from letter_run_joined [OF this]
  show "join_letters (take (Suc n) t) \<noteq> [] \<and> \<not> is_newline (hd (join_letters (take (Suc n) t))) \<and>
      \<not> is_newline (last (join_letters (take (Suc n) t))) \<and>
      no_run is_newline (join_letters (take (Suc n) t))"
    by (simp add: letter_not_newline)
qed

section \<open>The normal form\<close>

lemma set_remove_char: "set (remove_char c s) = set s - {c}"
  by (auto simp: remove_char_def)

lemma remove_char_fixed: "c \<notin> set s \<Longrightarrow> remove_char c s = s"
  by (auto simp: remove_char_def filter_id_conv)

lemma set_strip_invisible: "set (strip_invisible s) = {c \<in> set s. \<not> invisible c}"
  by (auto simp: strip_invisible_def set_remove_char invisible_def)

lemma strip_invisible_fixed: "(\<forall>c\<in>set s. \<not> invisible c) \<Longrightarrow> strip_invisible s = s"
proof -
  assume "\<forall>c\<in>set s. \<not> invisible c"
  then have "173 \<notin> set s" "8203 \<notin> set s" "8204 \<notin> set s" "8205 \<notin> set s"
    "65279 \<notin> set s" "13 \<notin> set s"
    by (auto simp: invisible_def)
  then show ?thesis by (simp add: strip_invisible_def remove_char_fixed)
qed

lemma set_dehyphenate: "set (dehyphenate s) \<subseteq> set s"
  using re_sub_from_set [of "\<lambda>m. []" "{}" hyphen_break 0 None s]
  by (simp add: dehyphenate_def re_sub_def)

lemma set_strip_markup: "set (strip_markup s) \<subseteq> set s - {60, 62}"
proof -
  have "set (re_sub letters_gt butlast s) \<subseteq> set s"
    using re_sub_from_set [of butlast "{}" letters_gt 0 None s]
    by (auto simp: re_sub_def dest: in_set_butlastD)
  then show ?thesis by (auto simp: strip_markup_def set_remove_char)
qed

lemma set_collapse_newlines: "set (collapse_newlines s) \<subseteq> set s \<union> {10}"
  using re_sub_from_set [of "\<lambda>m. [10]" "{10}" "run_of is_newline" 0 None s]
  by (simp add: collapse_newlines_def re_sub_def)

lemma set_rejoin_letters: "set (rejoin_letters wd s) \<subseteq> set s"
  using re_sub_from_set [of join_letters "{}" "spaced_letters wd" 0 None s]
  by (auto simp: rejoin_letters_def re_sub_def join_letters_def set_remove_char)

lemma set_collapse_blanks: "set (collapse_blanks s) \<subseteq> set s \<union> {32}"
  using re_sub_from_set [of "\<lambda>m. [32]" "{32}" "run_of is_blank" 0 None s]
  by (simp add: collapse_blanks_def re_sub_def)

lemma set_normalize_text:
  "set (normalize_text wd t) \<subseteq> {c \<in> set t. \<not> invisible c \<and> c \<noteq> 60 \<and> c \<noteq> 62} \<union> {10, 32}"
proof (cases "t = []")
  case True
  then show ?thesis by (simp add: normalize_text_def)
next
  case False
  let ?a = "strip_invisible t"
  let ?b = "dehyphenate ?a"
  let ?c = "strip_markup ?b"
  let ?d = "collapse_newlines ?c"
  let ?e = "rejoin_letters wd ?d"
  have "set ?c \<subseteq> {c \<in> set t. \<not> invisible c \<and> c \<noteq> 60 \<and> c \<noteq> 62}"
    using set_strip_markup [of ?b] set_dehyphenate [of ?a] set_strip_invisible [of t] by auto
  moreover have "set (collapse_blanks ?e) \<subseteq> set ?c \<union> {10, 32}"
    using set_collapse_blanks [of ?e] set_rejoin_letters [of wd ?d] set_collapse_newlines [of ?c]
    by auto
  ultimately show ?thesis using False by (auto simp: normalize_text_def)
qed

lemma gt_after_Some: "gt_after s k = Some n \<Longrightarrow> 62 \<in> set s"
proof (induction k)
  case 0
  then show ?case by simp
next
  case (Suc k)
  show ?case
  proof (cases "drop (Suc k) s")
    case Nil
    with Suc show ?thesis by (auto split: if_splits)
  next
    case (Cons c r)
    show ?thesis
    proof (cases "c = 62")
      case True
      with Cons have "62 \<in> set (drop (Suc k) s)" by simp
      then show ?thesis by (rule in_set_dropD)
    next
      case False
      with Cons Suc show ?thesis by (auto split: if_splits)
    qed
  qed
qed

lemma strip_markup_fixed: "60 \<notin> set s \<Longrightarrow> 62 \<notin> set s \<Longrightarrow> strip_markup s = s"
proof -
  assume lt: "60 \<notin> set s" and gt: "62 \<notin> set s"
  have "\<forall>q j. letters_gt q (drop j s) = None"
  proof (intro allI)
    fix q :: "int option" and j
    show "letters_gt q (drop j s) = None"
    proof (cases "letters_gt q (drop j s)")
      case None
      then show ?thesis .
    next
      case (Some n)
      then have "62 \<in> set (drop j s)" by (auto simp: letters_gt_def dest: gt_after_Some)
      with gt show ?thesis by (auto dest: in_set_dropD)
    qed
  qed
  then have "re_sub letters_gt butlast s = s"
    unfolding re_sub_def by (rule re_sub_from_no_match)
  with lt gt show ?thesis by (simp add: strip_markup_def remove_char_fixed)
qed

lemma normalize_text_no_runs:
  "no_run is_newline (normalize_text wd t) \<and> no_run is_blank (normalize_text wd t)"
proof (cases "t = []")
  case True
  then show ?thesis by (simp add: normalize_text_def)
next
  case False
  then show ?thesis
    by (simp add: normalize_text_def collapse_blanks_no_run collapse_blanks_keeps_newlines
        rejoin_keeps_newlines collapse_newlines_no_run)
qed

section \<open>No rule makes a text longer\<close>

lemma filter_same_length: "length (filter Q s) = length s \<Longrightarrow> filter Q s = s"
proof (induction s)
  case Nil
  show ?case by simp
next
  case (Cons a s)
  have le: "length (filter Q s) \<le> length s" by (rule length_filter_le)
  show ?case
  proof (cases "Q a")
    case True
    with Cons show ?thesis by simp
  next
    case False
    with Cons.prems le show ?thesis by simp
  qed
qed

lemma re_sub_from_length:
  assumes R: "\<And>q t n. m q t = Some (Suc n) \<Longrightarrow>
      length (repl (take (Suc n) t)) \<le> length (take (Suc n) t) \<and>
      (length (repl (take (Suc n) t)) = length (take (Suc n) t) \<longrightarrow>
         repl (take (Suc n) t) = take (Suc n) t)"
  shows "length (re_sub_from m repl k p s) \<le> length (drop k s) \<and>
     (length (re_sub_from m repl k p s) = length (drop k s) \<longrightarrow>
        re_sub_from m repl k p s = drop k s)"
proof (induction s arbitrary: k p)
  case Nil
  show ?case by simp
next
  case (Cons c cs)
  show ?case
  proof (cases k)
    case (Suc j)
    with Cons.IH [of j "Some c"] show ?thesis by simp
  next
    case 0
    note ih0 = Cons.IH [of 0 "Some c"]
    show ?thesis
    proof (cases "m p (c # cs)")
      case None
      with 0 ih0 show ?thesis by simp
    next
      case (Some n)
      show ?thesis
      proof (cases n)
        case 0
        with Some \<open>k = 0\<close> ih0 show ?thesis by simp
      next
        case (Suc j)
        let ?x = "take (Suc j) (c # cs)"
        let ?Y = "re_sub_from m repl j (Some c) cs"
        from R [of p "c # cs" j] Some Suc have
          r: "length (repl ?x) \<le> length ?x" "length (repl ?x) = length ?x \<longrightarrow> repl ?x = ?x"
          by auto
        from Cons.IH [of j "Some c"] have
          y: "length ?Y \<le> length (drop j cs)" "length ?Y = length (drop j cs) \<longrightarrow> ?Y = drop j cs"
          by auto
        have split: "c # cs = ?x @ drop j cs"
          by (metis append_take_drop_id drop_Suc_Cons)
        then have len: "length (c # cs) = length ?x + length (drop j cs)"
          by (metis length_append)
        have out: "re_sub_from m repl 0 p (c # cs) = repl ?x @ ?Y"
          using Some Suc by simp
        have "length (repl ?x @ ?Y) \<le> length (c # cs)"
          using r(1) y(1) len by simp
        moreover have "repl ?x @ ?Y = c # cs" if "length (repl ?x @ ?Y) = length (c # cs)"
        proof -
          from that r(1) y(1) len have "length (repl ?x) = length ?x" "length ?Y = length (drop j cs)"
            by simp_all
          with r(2) y(2) split show ?thesis by simp
        qed
        ultimately show ?thesis using out \<open>k = 0\<close> by simp
      qed
    qed
  qed
qed

lemma re_sub_length:
  assumes "\<And>q t n. m q t = Some (Suc n) \<Longrightarrow>
      length (repl (take (Suc n) t)) \<le> length (take (Suc n) t) \<and>
      (length (repl (take (Suc n) t)) = length (take (Suc n) t) \<longrightarrow>
         repl (take (Suc n) t) = take (Suc n) t)"
  shows "length (re_sub m repl s) \<le> length s \<and>
     (length (re_sub m repl s) = length s \<longrightarrow> re_sub m repl s = s)"
  using re_sub_from_length [of m repl 0 None s, OF assms] by (simp add: re_sub_def)

lemma dehyphenate_length:
  "length (dehyphenate s) \<le> length s \<and> (length (dehyphenate s) = length s \<longrightarrow> dehyphenate s = s)"
  unfolding dehyphenate_def
proof (rule re_sub_length)
  fix q t n
  assume "hyphen_break q t = Some (Suc n)"
  then have "t \<noteq> []" by (auto simp: hyphen_break_def)
  then have "take (Suc n) t \<noteq> []" by simp
  then show "length [] \<le> length (take (Suc n) t) \<and>
      (length ([]::ustring) = length (take (Suc n) t) \<longrightarrow> [] = take (Suc n) t)"
    by (metis le0 length_0_conv list.size(3))
qed

lemma rejoin_letters_length:
  "length (rejoin_letters wd s) \<le> length s \<and>
   (length (rejoin_letters wd s) = length s \<longrightarrow> rejoin_letters wd s = s)"
  unfolding rejoin_letters_def
proof (rule re_sub_length)
  fix q t n
  show "length (join_letters (take (Suc n) t)) \<le> length (take (Suc n) t) \<and>
      (length (join_letters (take (Suc n) t)) = length (take (Suc n) t) \<longrightarrow>
         join_letters (take (Suc n) t) = take (Suc n) t)"
    unfolding join_letters_def remove_char_def
    using length_filter_le [of "\<lambda>x. x \<noteq> 32" "take (Suc n) t"]
      filter_same_length [of "\<lambda>x. x \<noteq> 32" "take (Suc n) t"] by blast
qed

lemma collapse_length:
  "P c \<Longrightarrow> length (re_sub (run_of P) (\<lambda>m. [c]) s) \<le> length s"
proof -
  have "length (re_sub (run_of P) (\<lambda>m. [c]) s) \<le> length s \<and>
     (length (re_sub (run_of P) (\<lambda>m. [c]) s) = length s \<longrightarrow> re_sub (run_of P) (\<lambda>m. [c]) s = s)"
  proof (rule re_sub_length)
    fix q t n
    assume h: "run_of P q t = Some (Suc n)"
    from run_of_Some [OF h] have n: "Suc n = length (takeWhile P t)" "2 \<le> Suc n" by auto
    have "length (takeWhile P t) \<le> length t" by (rule length_takeWhile_le)
    with n have "length (take (Suc n) t) = Suc n" by simp
    with n show "length [c] \<le> length (take (Suc n) t) \<and>
      (length [c] = length (take (Suc n) t) \<longrightarrow> [c] = take (Suc n) t)" by simp
  qed
  then show ?thesis by simp
qed

lemma collapse_newlines_length: "length (collapse_newlines s) \<le> length s"
  unfolding collapse_newlines_def by (rule collapse_length) (simp add: is_newline_def)

lemma collapse_blanks_length: "length (collapse_blanks s) \<le> length s"
  unfolding collapse_blanks_def by (rule collapse_length) (simp add: is_blank_def)

section \<open>Normalizing twice\<close>

lemma normal_form_fixed:
  "strip_invisible (normalize_text wd t) = normalize_text wd t \<and>
   strip_markup (normalize_text wd t) = normalize_text wd t \<and>
   collapse_newlines (normalize_text wd t) = normalize_text wd t \<and>
   collapse_blanks (normalize_text wd t) = normalize_text wd t"
proof -
  let ?u = "normalize_text wd t"
  have inv: "\<not> invisible 10" "\<not> invisible 32" by (simp_all add: invisible_def)
  from set_normalize_text [of wd t] inv have "\<forall>c\<in>set ?u. \<not> invisible c" by auto
  then have a: "strip_invisible ?u = ?u" by (rule strip_invisible_fixed)
  from set_normalize_text [of wd t] have "60 \<notin> set ?u" "62 \<notin> set ?u" by auto
  then have b: "strip_markup ?u = ?u" by (rule strip_markup_fixed)
  from normalize_text_no_runs [of wd t] have
    c: "collapse_newlines ?u = ?u" and d: "collapse_blanks ?u = ?u"
    by (simp_all add: collapse_newlines_fixed collapse_blanks_fixed)
  from a b c d show ?thesis by simp
qed

lemma renormalize:
  "normalize_text wd (normalize_text wd t) =
     collapse_blanks (rejoin_letters wd (collapse_newlines (strip_markup
       (dehyphenate (normalize_text wd t)))))"
proof (cases "normalize_text wd t = []")
  case True
  then show ?thesis
    by (simp add: normalize_text_def [of wd "[]"] dehyphenate_def strip_markup_def
        collapse_newlines_def rejoin_letters_def collapse_blanks_def re_sub_def remove_char_def)
next
  case False
  with normal_form_fixed [of wd t] show ?thesis
    by (simp add: normalize_text_def [of wd "normalize_text wd t"])
qed

text \<open>
  Claim C1, amended. On a text that \<open>normalize_text\<close> has produced, four of the six
  rules have nothing left to do: removing the invisible characters, stripping the angle
  brackets, collapsing newlines and collapsing blanks each return it unchanged. Hence
  normalizing it again returns it unchanged exactly when the other two rules, joining
  words broken at a hyphen and rejoining spaced letters, find nothing to change in it. The
  empty text is returned as it is.
\<close>

theorem normalize_text_twice:
  "strip_invisible (normalize_text wd t) = normalize_text wd t \<and>
   strip_markup (normalize_text wd t) = normalize_text wd t \<and>
   collapse_newlines (normalize_text wd t) = normalize_text wd t \<and>
   collapse_blanks (normalize_text wd t) = normalize_text wd t \<and>
   (normalize_text wd (normalize_text wd t) = normalize_text wd t \<longleftrightarrow>
      dehyphenate (normalize_text wd t) = normalize_text wd t \<and>
      rejoin_letters wd (normalize_text wd t) = normalize_text wd t) \<and>
   normalize_text wd [] = []"
proof -
  let ?u = "normalize_text wd t"
  note fx = normal_form_fixed [of wd t]
  have fwd: "normalize_text wd ?u = ?u" if "dehyphenate ?u = ?u \<and> rejoin_letters wd ?u = ?u"
    using that fx by (simp add: renormalize)
  have bwd: "dehyphenate ?u = ?u \<and> rejoin_letters wd ?u = ?u" if n: "normalize_text wd ?u = ?u"
  proof -
    let ?b = "dehyphenate ?u"
    let ?c = "strip_markup ?b"
    let ?d = "collapse_newlines ?c"
    let ?e = "rejoin_letters wd ?d"
    have "length ?c \<le> length ?b"
    proof -
      have "length (re_sub letters_gt butlast ?b) \<le> length ?b"
      proof -
        have "length (re_sub letters_gt butlast ?b) \<le> length ?b \<and>
          (length (re_sub letters_gt butlast ?b) = length ?b \<longrightarrow> re_sub letters_gt butlast ?b = ?b)"
        proof (rule re_sub_length)
          fix q t' n
          show "length (butlast (take (Suc n) t')) \<le> length (take (Suc n) t') \<and>
            (length (butlast (take (Suc n) t')) = length (take (Suc n) t') \<longrightarrow>
               butlast (take (Suc n) t') = take (Suc n) t')"
            by (cases "take (Suc n) t'" rule: rev_cases) auto
        qed
        then show ?thesis by simp
      qed
      moreover have "length (remove_char 62 (remove_char 60 (re_sub letters_gt butlast ?b)))
          \<le> length (re_sub letters_gt butlast ?b)"
        unfolding remove_char_def
        by (meson length_filter_le order_trans)
      ultimately show ?thesis by (simp add: strip_markup_def)
    qed
    moreover have "length ?d \<le> length ?c" by (rule collapse_newlines_length)
    moreover have "length ?e \<le> length ?d" using rejoin_letters_length [of wd ?d] by simp
    moreover have "length (collapse_blanks ?e) \<le> length ?e" by (rule collapse_blanks_length)
    moreover have "length (collapse_blanks ?e) = length ?u" using n by (simp add: renormalize)
    moreover have "length ?b \<le> length ?u" using dehyphenate_length [of ?u] by simp
    ultimately have "length ?b = length ?u" by linarith
    with dehyphenate_length [of ?u] have dh: "?b = ?u" by simp
    with n fx have n2: "collapse_blanks (rejoin_letters wd ?u) = ?u" by (simp add: renormalize)
    have "length (collapse_blanks (rejoin_letters wd ?u)) \<le> length (rejoin_letters wd ?u)"
      by (rule collapse_blanks_length)
    with n2 rejoin_letters_length [of wd ?u] have "length (rejoin_letters wd ?u) = length ?u"
      by simp
    with rejoin_letters_length [of wd ?u] have "rejoin_letters wd ?u = ?u" by simp
    with dh show ?thesis by simp
  qed
  have e: "normalize_text wd [] = []" by (simp add: normalize_text_def)
  from fx fwd bwd e show ?thesis by blast
qed


theorem normalize_text_twice_witness:
  "normalize_text latin1_word (ascii ''t r a b a j o'') = ascii ''trabajo'' \<and>
   dehyphenate (normalize_text latin1_word (ascii ''t r a b a j o'')) = ascii ''trabajo'' \<and>
   rejoin_letters latin1_word (normalize_text latin1_word (ascii ''t r a b a j o'')) = ascii ''trabajo'' \<and>
   normalize_text latin1_word (normalize_text latin1_word (ascii ''t r a b a j o'')) = ascii ''trabajo''"
proof -
  let ?u = "normalize_text latin1_word (ascii ''t r a b a j o'')"
  have u: "?u = ascii ''trabajo''" by code_simp
  have d: "dehyphenate ?u = ascii ''trabajo''" by code_simp
  have r: "rejoin_letters latin1_word ?u = ascii ''trabajo''" by code_simp
  from normalize_text_twice [of latin1_word "ascii ''t r a b a j o''"] u d r
  show ?thesis by simp
qed

text \<open>
  The claim as stated fails: \<open>"a  b  c"\<close>, with two spaces between the letters, becomes
  \<open>"a b c"\<close>, since the blanks are collapsed after the letters are looked at, and that
  text becomes \<open>"abc"\<close>.
\<close>

theorem normalize_text_twice_counterexample:
  "normalize_text latin1_word (ascii ''a  b  c'') = ascii ''a b c'' \<and>
   normalize_text latin1_word (normalize_text latin1_word (ascii ''a  b  c'')) = ascii ''abc'' \<and>
   normalize_text latin1_word (normalize_text latin1_word (ascii ''a  b  c'')) \<noteq>
     normalize_text latin1_word (ascii ''a  b  c'')"
  by code_simp

section \<open>Runs of single letters\<close>






section \<open>A run inside a text\<close>









section \<open>Short runs and texts that are one run\<close>










section \<open>Letter-spaced words\<close>

















end
